theory Spec2Isabelle
  imports Main "HOL-Library.AList"
begin

section \<open>Data model\<close>

text \<open>
  The Shared Document is one JSON file, the Lock Marker is its sibling \<open>.lock\<close> file, and
  every \<open>ReactiveFileContext\<close> of one process that is bound to the document owns a Mirror.
  JSON values are a datatype; objects are association lists in property order.
\<close>

datatype json =
    JNull
  | JBool bool
  | JNum int
  | JStr string
  | JArr "json list"
  | JObj "(string \<times> json) list"

type_synonym props = "(string \<times> json) list"

text \<open>
  What \<open>fs.readJSONSync\<close> finds at the document path: no file, a file whose text does not
  parse (the empty file that \<open>ensureFileSync\<close> creates is one), or a parsed value.
\<close>

datatype file_state = Missing | Unparsable | Parsed json

text \<open>
  The rest of the machine (other processes, the disk, the clock) acts between the file-system
  calls of the code. Each call first consumes one pending event: an amount of milliseconds
  that pass, and what happens meanwhile. \<open>Fault\<close> makes the call itself fail with an I/O
  error that is neither \<open>EEXIST\<close> nor \<open>ENOENT\<close>.
\<close>

datatype interference =
    Quiet
  | Fault
  | MarkerSet "int option"
  | DocSet file_state

datatype path = DocPath | LockPath

datatype fs_op = Exists | Ensure | Read | Write | WriteExcl | Stat | Unlink | Remove

text \<open>The four \<open>consola.warn\<close> call sites of the context class.\<close>

datatype warning = SaveFailed | SyncSaveFailed | LockNotAcquired | SyncFromFileFailed

text \<open>
  The prototype of the target object behind the proxy: \<open>Object.prototype\<close> as the object
  literal of the constructor has it, or what an assignment to \<open>__proto__\<close> has put there.
\<close>

datatype prototype = ObjectPrototype | NullPrototype | ValuePrototype json

text \<open>
  The fields of a \<open>ReactiveFileContext\<close>: \<open>data\<close> (the target object behind the proxy) as
  its own enumerable properties, the Mirror, and its prototype; the three flags;
  \<open>options.cleanup\<close> and \<open>options.lockTimeout\<close> as the caller gave them; and whether
  \<open>fileChangeCallback\<close> is subscribed at the watcher.
\<close>

record ctx =
  mirror :: props
  proto :: prototype
  disposed :: bool
  isUpdatingFromFile :: bool
  initialized :: bool
  cleanup :: "bool option"
  lockTimeout :: "int option"
  watching :: bool

text \<open>
  A call of \<open>performSave\<close> is not awaited by \<open>saveFile\<close>: it is in flight from its call until
  its promise settles, and stands at one of its \<open>await\<close>s meanwhile. The stages name the call
  that is awaited: \<open>writeFile\<close> of file-lock.ts line 15, \<open>stat\<close> of line 23, \<open>unlink\<close> of line
  26, the timer of line 34 with the time at which it fires, the promise of an \<open>acquire()\<close>
  that returned \<open>false\<close> before its first \<open>await\<close>, \<open>ensureFile\<close> of line 145, \<open>writeJSON\<close> of
  line 146 with the serialisation it was called with, and the \<open>unlink\<close> of \<open>release\<close> in the
  \<open>finally\<close> block together with whether the \<open>try\<close> block threw. A persist is the context
  it belongs to, the \<open>start\<close> of its \<open>acquire()\<close>, its stage, and the file-system calls that
  it has made so far.
\<close>

datatype stage =
    CreateIssued
  | StatIssued
  | UnlinkIssued
  | TimerSet int
  | Refused
  | EnsureIssued
  | WriteIssued props
  | ReleaseIssued bool
  | Settled

record task =
  t_ctx :: nat
  t_start :: int
  t_stage :: stage
  t_log :: "(fs_op \<times> path \<times> bool) list"

text \<open>
  The state of one process and of the files it shares: the clock \<open>Date.now()\<close>, the
  modification time of the Lock Marker when it exists, the document file, the events still
  to come, the log of file-system calls with their success, the warnings, the log of
  \<open>saveFile\<close> invocations by context, whether \<open>NODE_ENV\<close> is \<open>test\<close>, the contexts in the
  order of their construction, which is the order of the process-wide \<open>effects\<close> set, and the
  persists started so far in the order of their start.
\<close>

record sys =
  now :: int
  marker :: "int option"
  doc :: file_state
  pending :: "(nat \<times> interference) list"
  trace :: "(fs_op \<times> path \<times> bool) list"
  warnings :: "warning list"
  saves :: "nat list"
  test_mode :: bool
  ctxs :: "ctx list"
  tasks :: "task list"

definition logged :: "fs_op \<Rightarrow> path \<Rightarrow> bool \<Rightarrow> sys \<Rightarrow> sys" where
  "logged c p ok s = s\<lparr>trace := trace s @ [(c, p, ok)]\<rparr>"

definition warn :: "warning \<Rightarrow> sys \<Rightarrow> sys" where
  "warn m s = s\<lparr>warnings := warnings s @ [m]\<rparr>"

definition env_step :: "sys \<Rightarrow> bool \<times> sys" where
  "env_step s =
     (case pending s of
        [] \<Rightarrow> (False, s)
      | (d, iv) # rest \<Rightarrow>
          (let s1 = s\<lparr>now := now s + int d, pending := rest\<rparr> in
           case iv of
             Quiet \<Rightarrow> (False, s1)
           | Fault \<Rightarrow> (True, s1)
           | MarkerSet m \<Rightarrow> (False, s1\<lparr>marker := m\<rparr>)
           | DocSet f \<Rightarrow> (False, s1\<lparr>doc := f\<rparr>)))"

section \<open>The lock: file-lock.ts\<close>

datatype wx_result = Created | EEXIST | IOError

text \<open>\<open>fs.writeFile(lockPath, pid, { flag: 'wx' })\<close>: exclusive create.\<close>

definition writeFile_wx :: "sys \<Rightarrow> wx_result \<times> sys" where
  "writeFile_wx s =
     (case env_step s of
        (True, s1) \<Rightarrow> (IOError, logged WriteExcl LockPath False s1)
      | (False, s1) \<Rightarrow>
          (case marker s1 of
             None \<Rightarrow> (Created, logged WriteExcl LockPath True (s1\<lparr>marker := Some (now s1)\<rparr>))
           | Some m \<Rightarrow> (EEXIST, logged WriteExcl LockPath False s1)))"

text \<open>\<open>fs.stat(lockPath)\<close>: the modification time, or \<open>None\<close> when the call throws.\<close>

definition stat_mtime :: "sys \<Rightarrow> int option \<times> sys" where
  "stat_mtime s =
     (case env_step s of
        (True, s1) \<Rightarrow> (None, logged Stat LockPath False s1)
      | (False, s1) \<Rightarrow>
          (case marker s1 of
             None \<Rightarrow> (None, logged Stat LockPath False s1)
           | Some m \<Rightarrow> (Some m, logged Stat LockPath True s1)))"

datatype unlink_result = Unlinked | ENOENT | UnlinkError

text \<open>\<open>fs.unlink(lockPath)\<close>.\<close>

definition unlink :: "sys \<Rightarrow> unlink_result \<times> sys" where
  "unlink s =
     (case env_step s of
        (True, s1) \<Rightarrow> (UnlinkError, logged Unlink LockPath False s1)
      | (False, s1) \<Rightarrow>
          (case marker s1 of
             None \<Rightarrow> (ENOENT, logged Unlink LockPath False s1)
           | Some m \<Rightarrow> (Unlinked, logged Unlink LockPath True (s1\<lparr>marker := None\<rparr>))))"

text \<open>\<open>await new Promise(resolve => setTimeout(resolve, ms))\<close>.\<close>

definition sleep :: "int \<Rightarrow> sys \<Rightarrow> sys" where
  "sleep ms s = s\<lparr>now := now s + ms\<rparr>"

datatype lock_outcome = Returned bool | Threw

text \<open>
  The loop of \<open>FileLock.acquire\<close>, one call per evaluation of the \<open>while\<close> condition.
  Both \<open>continue\<close> statements and the end of the body come back to the condition.
\<close>

function acquire_loop :: "int \<Rightarrow> int \<Rightarrow> sys \<Rightarrow> lock_outcome \<times> sys" where
  "acquire_loop timeout start s =
     (if now s - start < timeout then
        (case writeFile_wx s of
           (Created, s1) \<Rightarrow> (Returned True, s1)
         | (IOError, s1) \<Rightarrow> (Threw, s1)
         | (EEXIST, s1) \<Rightarrow>
             (case stat_mtime s1 of
                (None, s2) \<Rightarrow> acquire_loop timeout start s2
              | (Some mtime, s2) \<Rightarrow>
                  if now s2 - mtime > timeout * 2
                  then acquire_loop timeout start (snd (unlink s2))
                  else acquire_loop timeout start (sleep 10 s2)))
      else (Returned False, s))"
  by pat_completeness auto


text \<open>\<open>FileLock.acquire\<close>: \<open>const start = Date.now()\<close>, then the loop.\<close>

definition acquire :: "int \<Rightarrow> sys \<Rightarrow> lock_outcome \<times> sys" where
  "acquire timeout s = acquire_loop timeout (now s) s"

text \<open>
  \<open>FileLock.release\<close>: \<open>ENOENT\<close> is swallowed, any other error is thrown again.
  \<open>True\<close> is a resolved promise, \<open>False\<close> a rejected one.
\<close>

definition release :: "sys \<Rightarrow> bool \<times> sys" where
  "release s =
     (case unlink s of
        (UnlinkError, s1) \<Rightarrow> (False, s1)
      | (r, s1) \<Rightarrow> (True, s1))"

section \<open>Concurrent callers of the lock\<close>

text \<open>
  Several \<open>acquire()\<close> calls in flight at once interleave at their \<open>await\<close>s. A caller is
  its timeout, its \<open>start\<close> and the place where it stands: before line 12 (\<open>Enter\<close>), at the
  loop condition of line 13 (\<open>Guard\<close>), with \<open>writeFile\<close> of line 15 issued (\<open>Create\<close>),
  with \<open>stat\<close> of line 23 issued (\<open>StatCall\<close>), with the result of \<open>stat\<close> in hand at line 24
  (\<open>Age\<close>), with \<open>unlink\<close> of line 26 issued (\<open>UnlinkCall\<close>), in the timer of line 34 until
  the given time (\<open>Sleeping\<close>), or done. Each step performs at most one file-system call.
\<close>

datatype pc =
    Enter | Guard | Create | StatCall | Age int | UnlinkCall | Sleeping int
  | Finished lock_outcome

record contender =
  c_timeout :: int
  c_start :: int
  c_pc :: pc

definition contender_step :: "contender \<Rightarrow> sys \<Rightarrow> contender \<times> sys" where
  "contender_step c s =
     (case c_pc c of
        Enter \<Rightarrow> (c\<lparr>c_start := now s, c_pc := Guard\<rparr>, s)
      | Guard \<Rightarrow>
          (if now s - c_start c < c_timeout c then (c\<lparr>c_pc := Create\<rparr>, s)
           else (c\<lparr>c_pc := Finished (Returned False)\<rparr>, s))
      | Create \<Rightarrow>
          (case writeFile_wx s of
             (Created, s1) \<Rightarrow> (c\<lparr>c_pc := Finished (Returned True)\<rparr>, s1)
           | (IOError, s1) \<Rightarrow> (c\<lparr>c_pc := Finished Threw\<rparr>, s1)
           | (EEXIST, s1) \<Rightarrow> (c\<lparr>c_pc := StatCall\<rparr>, s1))
      | StatCall \<Rightarrow>
          (case stat_mtime s of
             (None, s1) \<Rightarrow> (c\<lparr>c_pc := Guard\<rparr>, s1)
           | (Some mtime, s1) \<Rightarrow> (c\<lparr>c_pc := Age mtime\<rparr>, s1))
      | Age mtime \<Rightarrow>
          (if now s - mtime > c_timeout c * 2 then (c\<lparr>c_pc := UnlinkCall\<rparr>, s)
           else (c\<lparr>c_pc := Sleeping (now s + 10)\<rparr>, s))
      | UnlinkCall \<Rightarrow> (c\<lparr>c_pc := Guard\<rparr>, snd (unlink s))
      | Sleeping wake \<Rightarrow> (if wake \<le> now s then (c\<lparr>c_pc := Guard\<rparr>, s) else (c, s))
      | Finished r \<Rightarrow> (c, s))"

text \<open>
  A schedule: caller \<open>i\<close> takes its next step, time passes, or some holder calls
  \<open>release()\<close>.
\<close>

datatype sched = Run nat | Tick nat | ReleaseCall

fun sched_step :: "sched \<Rightarrow> contender list \<times> sys \<Rightarrow> contender list \<times> sys" where
  "sched_step (Run i) (cs, s) =
     (if i < length cs
      then (case contender_step (cs ! i) s of (c, s1) \<Rightarrow> (cs[i := c], s1))
      else (cs, s))"
| "sched_step (Tick d) (cs, s) = (cs, s\<lparr>now := now s + int d\<rparr>)"
| "sched_step ReleaseCall (cs, s) = (cs, snd (release s))"

fun run :: "sched list \<Rightarrow> contender list \<times> sys \<Rightarrow> contender list \<times> sys" where
  "run [] st = st"
| "run (e # es) st = run es (sched_step e st)"

definition succeeded :: "contender list \<Rightarrow> nat set" where
  "succeeded cs = {i. i < length cs \<and> c_pc (cs ! i) = Finished (Returned True)}"

text \<open>The marker exists in the state and after every event of the schedule.\<close>

fun held_throughout :: "sched list \<Rightarrow> contender list \<times> sys \<Rightarrow> bool" where
  "held_throughout [] st = (marker (snd st) \<noteq> None)"
| "held_throughout (e # es) st = (marker (snd st) \<noteq> None \<and> held_throughout es (sched_step e st))"

section \<open>JavaScript objects\<close>

definition digit :: "nat \<Rightarrow> char" where
  "digit n = ''0123456789'' ! (n mod 10)"

fun index_key :: "nat \<Rightarrow> string" where
  "index_key n = (if n < 10 then [digit n] else index_key (n div 10) @ [digit n])"

text \<open>
  The own enumerable string-keyed properties, as \<open>Object.keys\<close>, object spread and the
  source of \<open>Object.assign\<close> enumerate them: an object's properties, an array's and a
  string's indices, nothing for the other values.
\<close>

fun entries :: "json \<Rightarrow> props" where
  "entries (JObj kvs) = kvs"
| "entries (JArr xs) = zip (map index_key [0..<length xs]) xs"
| "entries (JStr cs) = zip (map index_key [0..<length cs]) (map (\<lambda>c. JStr [c]) cs)"
| "entries j = []"

fun truthy :: "json \<Rightarrow> bool" where
  "truthy JNull = False"
| "truthy (JBool b) = b"
| "truthy (JNum n) = (n \<noteq> 0)"
| "truthy (JStr cs) = (cs \<noteq> [])"
| "truthy j = True"

text \<open>\<open>Object.keys(x)\<close>: a \<open>TypeError\<close> (\<open>None\<close>) for \<open>null\<close>.\<close>

definition object_keys :: "json \<Rightarrow> string list option" where
  "object_keys j = (if j = JNull then None else Some (map fst (entries j)))"

text \<open>Assignment of every property of the source to a plain object, in order.\<close>

definition assign :: "props \<Rightarrow> props \<Rightarrow> props" where
  "assign target src = fold (\<lambda>(k, v). AList.update k v) src target"

text \<open>The values that are objects: a reference is stored, and \<open>__proto__\<close> accepts them.\<close>

fun is_ref :: "json \<Rightarrow> bool" where
  "is_ref (JObj kvs) = True"
| "is_ref (JArr xs) = True"
| "is_ref j = False"

text \<open>
  Whether the lookup of \<open>__proto__\<close> along the prototype chain ends at the accessor of
  \<open>Object.prototype\<close>: not with a \<open>null\<close> prototype, and not when the prototype is an object
  that has \<open>__proto__\<close> as an own property, as \<open>JSON.parse\<close> creates it.
\<close>

fun reaches_setter :: "prototype \<Rightarrow> bool" where
  "reaches_setter ObjectPrototype = True"
| "reaches_setter NullPrototype = False"
| "reaches_setter (ValuePrototype j) = (''__proto__'' \<notin> set (map fst (entries j)))"

text \<open>
  Whether an assignment to the key \<open>k\<close> of the target object calls that accessor: the key is
  \<open>__proto__\<close>, the target has no own property of that name, and the lookup ends there.
\<close>

definition calls_setter :: "string \<Rightarrow> ctx \<Rightarrow> bool" where
  "calls_setter k c =
     (k = ''__proto__'' \<and> k \<notin> set (map fst (mirror c)) \<and> reaches_setter (proto c))"

text \<open>
  \<open>Reflect.set(target, key, value, receiver)\<close> on the target object. An own property is
  updated in place and a new key is added as the last own property, unless the assignment
  calls the accessor: the setter makes an object or \<open>null\<close> the prototype of the target,
  ignores any other value, and no own property is stored.
\<close>

definition reflect_set :: "string \<Rightarrow> json \<Rightarrow> ctx \<Rightarrow> ctx" where
  "reflect_set k v c =
     (if calls_setter k c
      then (if is_ref v then c\<lparr>proto := ValuePrototype v\<rparr>
            else if v = JNull then c\<lparr>proto := NullPrototype\<rparr>
            else c)
      else c\<lparr>mirror := AList.update k v (mirror c)\<rparr>)"

text \<open>\<open>Reflect.deleteProperty(target, key)\<close>: the own property goes, if there is one.\<close>

definition reflect_delete :: "string \<Rightarrow> ctx \<Rightarrow> ctx" where
  "reflect_delete k c = c\<lparr>mirror := AList.delete k (mirror c)\<rparr>"

section \<open>The document file\<close>

text \<open>
  The calls of \<open>fs-extra\<close> on the two paths. The synchronous and the promise variants of a
  call are the same function here: what the call does to the files when it completes. What
  the process does between the issue of a promise variant and its completion is a matter of
  the persist that awaits it.
\<close>

text \<open>\<open>fs.existsSync\<close>: never throws, \<open>false\<close> on any error.\<close>

definition existsSync :: "path \<Rightarrow> sys \<Rightarrow> bool \<times> sys" where
  "existsSync p s =
     (case env_step s of
        (fault, s1) \<Rightarrow>
          (let r = (\<not> fault \<and> (case p of DocPath \<Rightarrow> doc s1 \<noteq> Missing | LockPath \<Rightarrow> marker s1 \<noteq> None))
           in (r, logged Exists p r s1)))"

text \<open>\<open>fs.ensureFile\<close> and \<open>fs.ensureFileSync\<close>: an absent file is created empty.\<close>

definition ensureFile :: "sys \<Rightarrow> bool \<times> sys" where
  "ensureFile s =
     (case env_step s of
        (True, s1) \<Rightarrow> (False, logged Ensure DocPath False s1)
      | (False, s1) \<Rightarrow>
          (True, logged Ensure DocPath True (if doc s1 = Missing then s1\<lparr>doc := Unparsable\<rparr> else s1)))"

text \<open>\<open>fs.readJSON\<close> and \<open>fs.readJSONSync\<close>: \<open>None\<close> when the call throws.\<close>

definition readJSON :: "sys \<Rightarrow> json option \<times> sys" where
  "readJSON s =
     (case env_step s of
        (True, s1) \<Rightarrow> (None, logged Read DocPath False s1)
      | (False, s1) \<Rightarrow>
          (case doc s1 of
             Parsed j \<Rightarrow> (Some j, logged Read DocPath True s1)
           | f \<Rightarrow> (None, logged Read DocPath False s1)))"

text \<open>
  \<open>fs.writeJSON\<close> and \<open>fs.writeJSONSync\<close> of an object: the whole file is replaced by its
  serialisation, which parses back to the same object.
\<close>

definition writeJSON :: "props \<Rightarrow> sys \<Rightarrow> bool \<times> sys" where
  "writeJSON d s =
     (case env_step s of
        (True, s1) \<Rightarrow> (False, logged Write DocPath False s1)
      | (False, s1) \<Rightarrow> (True, logged Write DocPath True (s1\<lparr>doc := Parsed (JObj d)\<rparr>)))"

text \<open>\<open>fs.removeSync\<close>: no error when the file is absent.\<close>

definition removeSync :: "path \<Rightarrow> sys \<Rightarrow> bool \<times> sys" where
  "removeSync p s =
     (case env_step s of
        (True, s1) \<Rightarrow> (False, logged Remove p False s1)
      | (False, s1) \<Rightarrow>
          (True, logged Remove p True
             (case p of DocPath \<Rightarrow> s1\<lparr>doc := Missing\<rparr> | LockPath \<Rightarrow> s1\<lparr>marker := None\<rparr>)))"

section \<open>The context: ReactiveFileContext\<close>

definition upd_ctx :: "nat \<Rightarrow> (ctx \<Rightarrow> ctx) \<Rightarrow> sys \<Rightarrow> sys" where
  "upd_ctx i f s = s\<lparr>ctxs := (ctxs s)[i := f (ctxs s ! i)]\<rparr>"

text \<open>\<open>loadFile\<close>: the empty object when the file is absent or the read throws.\<close>

definition loadFile :: "sys \<Rightarrow> json \<times> sys" where
  "loadFile s =
     (case existsSync DocPath s of
        (False, s1) \<Rightarrow> (JObj [], s1)
      | (True, s1) \<Rightarrow>
          (case readJSON s1 of
             (None, s2) \<Rightarrow> (JObj [], s2)
           | (Some j, s2) \<Rightarrow> (j, s2)))"

text \<open>The default of the \<open>FileLock\<close> constructor: \<open>timeout: number = 500\<close>.\<close>

definition lock_timeout :: "ctx \<Rightarrow> int" where
  "lock_timeout c = (case lockTimeout c of None \<Rightarrow> 500 | Some t \<Rightarrow> t)"

text \<open>
  \<open>performSave\<close> from its call to the settling of its promise, when nothing else of the
  process runs between its \<open>await\<close>s: \<open>True\<close> is a resolved promise, \<open>False\<close> a rejected one.
  The \<open>finally\<close> block releases the lock on each way out of the \<open>try\<close> block.
\<close>

definition performSave :: "nat \<Rightarrow> sys \<Rightarrow> bool \<times> sys" where
  "performSave i s =
     (case acquire (lock_timeout (ctxs s ! i)) s of
        (Threw, s1) \<Rightarrow> (False, s1)
      | (Returned False, s1) \<Rightarrow> (True, warn LockNotAcquired s1)
      | (Returned True, s1) \<Rightarrow>
          (case ensureFile s1 of
             (False, s2) \<Rightarrow> (False, snd (release s2))
           | (True, s2) \<Rightarrow>
               (case writeJSON (mirror (ctxs s2 ! i)) s2 of
                  (False, s3) \<Rightarrow> (False, snd (release s3))
                | (True, s3) \<Rightarrow> release s3)))"

definition performSyncSave :: "nat \<Rightarrow> sys \<Rightarrow> sys" where
  "performSyncSave i s =
     (case writeJSON (mirror (ctxs s ! i)) s of
        (True, s1) \<Rightarrow> s1
      | (False, s1) \<Rightarrow> warn SyncSaveFailed s1)"

text \<open>
  \<open>this.performSave().catch(...)\<close> under the same condition: the rejection handler of
  \<open>saveFile\<close> turns a rejected promise into a warning.
\<close>

definition save_alone :: "nat \<Rightarrow> sys \<Rightarrow> sys" where
  "save_alone i s =
     (case performSave i s of
        (True, s1) \<Rightarrow> s1
      | (False, s1) \<Rightarrow> warn SaveFailed s1)"

text \<open>
  What the call \<open>this.performSave()\<close> does before it hands its promise back: \<open>acquire()\<close>
  reads \<open>start\<close>, tests the loop condition for the first time, \<open>Date.now() - start\<close> being 0,
  and issues the exclusive create or returns \<open>false\<close>. The persist is in flight from here.
\<close>

definition start_save :: "nat \<Rightarrow> sys \<Rightarrow> sys" where
  "start_save i s =
     s\<lparr>tasks := tasks s @
         [\<lparr>t_ctx = i, t_start = now s,
           t_stage = (if 0 < lock_timeout (ctxs s ! i) then CreateIssued else Refused),
           t_log = []\<rparr>]\<rparr>"

text \<open>\<open>saveFile\<close>: the promise of \<open>performSave\<close> is not awaited.\<close>

definition saveFile :: "nat \<Rightarrow> sys \<Rightarrow> sys" where
  "saveFile i s =
     (let s0 = s\<lparr>saves := saves s @ [i]\<rparr> in
      if test_mode s0 then performSyncSave i s0 else start_save i s0)"

text \<open>
  The function that the constructor registers with \<open>effect\<close>, and \<open>effects.forEach(fn => fn())\<close>
  of the proxy traps: the set is one per process, so every context's function runs.
\<close>

definition run_effect :: "nat \<Rightarrow> sys \<Rightarrow> sys" where
  "run_effect i s =
     (if \<not> disposed (ctxs s ! i) \<and> \<not> isUpdatingFromFile (ctxs s ! i) then saveFile i s else s)"

definition trigger :: "sys \<Rightarrow> sys" where
  "trigger s = fold run_effect [0..<length (ctxs s)] s"

text \<open>The \<open>set\<close> and \<open>deleteProperty\<close> traps of \<open>reactive\<close>, on the Mirror of context \<open>i\<close>.\<close>

definition proxy_set :: "nat \<Rightarrow> string \<Rightarrow> json \<Rightarrow> sys \<Rightarrow> sys" where
  "proxy_set i k v s = trigger (upd_ctx i (reflect_set k v) s)"

definition proxy_delete :: "nat \<Rightarrow> string \<Rightarrow> sys \<Rightarrow> sys" where
  "proxy_delete i k s = trigger (upd_ctx i (reflect_delete k) s)"

text \<open>\<open>Object.assign(this.data, src)\<close>: one \<open>set\<close> trap per property of the source.\<close>

definition object_assign :: "nat \<Rightarrow> props \<Rightarrow> sys \<Rightarrow> sys" where
  "object_assign i src s = fold (\<lambda>(k, v). proxy_set i k v) src s"


record options =
  opt_data :: "props option"
  opt_cleanup :: "bool option"
  opt_lockTimeout :: "int option"

datatype exn = IOFault | TypeError

text \<open>\<open>initialData || {}\<close> for \<open>initialData = this.options.data\<close>.\<close>

definition initial_data :: "options \<Rightarrow> props" where
  "initial_data opts = (case opt_data opts of None \<Rightarrow> [] | Some d \<Rightarrow> d)"

text \<open>
  The constructor. \<open>ensureFileSync\<close> and \<open>Object.keys(existingData)\<close> stand outside any
  \<open>try\<close>. The new context is the last of the process; \<open>effect\<close> adds its function to the
  set and runs it once, which calls \<open>saveFile\<close>.
\<close>

definition construct :: "options \<Rightarrow> sys \<Rightarrow> exn + sys" where
  "construct opts s =
     (case ensureFile s of
        (False, s1) \<Rightarrow> Inl IOFault
      | (True, s1) \<Rightarrow>
          (case loadFile s1 of
             (existingData, s2) \<Rightarrow>
               (let initialData = initial_data opts;
                    data = assign (assign [] initialData) (entries existingData)
                in case object_keys existingData of
                     None \<Rightarrow> Inl TypeError
                   | Some ks \<Rightarrow>
                       (let c = \<lparr>mirror = data, proto = ObjectPrototype,
                                 disposed = False, isUpdatingFromFile = False,
                                 initialized = (length ks > 0 \<or> length initialData > 0),
                                 cleanup = opt_cleanup opts, lockTimeout = opt_lockTimeout opts,
                                 watching = False\<rparr>;
                            i = length (ctxs s2);
                            s3 = run_effect i (s2\<lparr>ctxs := ctxs s2 @ [c]\<rparr>)
                        in Inr (upd_ctx i (\<lambda>c. c\<lparr>watching := True\<rparr>) s3)))))"

text \<open>\<open>ready\<close>: the \<open>for\<close> loop with the number of rounds left.\<close>

fun ready_loop :: "nat \<Rightarrow> nat \<Rightarrow> sys \<Rightarrow> sys" where
  "ready_loop 0 i s = upd_ctx i (\<lambda>c. c\<lparr>initialized := True\<rparr>) s"
| "ready_loop (Suc n) i s =
     (case existsSync DocPath s of
        (False, s1) \<Rightarrow> ready_loop n i (sleep 50 s1)
      | (True, s1) \<Rightarrow>
          (case readJSON s1 of
             (None, s2) \<Rightarrow> ready_loop n i (sleep 50 s2)
           | (Some data, s2) \<Rightarrow>
               if truthy data \<and> length (entries data) > 0
               then upd_ctx i (\<lambda>c. c\<lparr>initialized := True\<rparr>) (object_assign i (entries data) s2)
               else ready_loop n i (sleep 50 s2)))"

definition ready :: "nat \<Rightarrow> sys \<Rightarrow> sys" where
  "ready i s = (if initialized (ctxs s ! i) then s else ready_loop 10 i s)"

text \<open>\<open>cleanup\<close>: a throwing \<open>removeSync\<close> ends the \<open>try\<close> block, silently.\<close>

definition cleanup_files :: "sys \<Rightarrow> sys" where
  "cleanup_files s =
     (case existsSync DocPath s of
        (e1, s1) \<Rightarrow>
          (case (if e1 then removeSync DocPath s1 else (True, s1)) of
             (False, s2) \<Rightarrow> s2
           | (True, s2) \<Rightarrow>
               (case existsSync LockPath s2 of
                  (e2, s3) \<Rightarrow> if e2 then snd (removeSync LockPath s3) else s3)))"

definition dispose :: "nat \<Rightarrow> sys \<Rightarrow> sys" where
  "dispose i s =
     (let s1 = upd_ctx i (\<lambda>c. c\<lparr>disposed := True, watching := False\<rparr>) s in
      if cleanup (ctxs s ! i) \<noteq> Some False then cleanup_files s1 else s1)"

text \<open>
  \<open>syncFromFile\<close>. \<open>try_catch_finally body handler final\<close> is
  \<open>try { body } catch { handler } finally { final }\<close> for a body that tells whether it threw.
  Nothing in the body of the reload throws: \<open>loadFile\<close> catches, the traps act on a plain
  object, and \<open>saveFile\<close> catches or leaves a promise behind.
\<close>

definition try_catch_finally ::
  "(sys \<Rightarrow> bool \<times> sys) \<Rightarrow> (sys \<Rightarrow> sys) \<Rightarrow> (sys \<Rightarrow> sys) \<Rightarrow> sys \<Rightarrow> sys" where
  "try_catch_finally body handler final s =
     (case body s of (threw, s1) \<Rightarrow> final (if threw then handler s1 else s1))"

definition reload_body :: "nat \<Rightarrow> sys \<Rightarrow> bool \<times> sys" where
  "reload_body i s =
     (let s0 = upd_ctx i (\<lambda>c. c\<lparr>isUpdatingFromFile := True\<rparr>) s in
      case loadFile s0 of
        (fileData, s1) \<Rightarrow>
          (let s2 = fold (proxy_delete i) (map fst (mirror (ctxs s1 ! i))) s1
           in (False, object_assign i (entries fileData) s2)))"

definition syncFromFile :: "nat \<Rightarrow> sys \<Rightarrow> sys" where
  "syncFromFile i s =
     (if disposed (ctxs s ! i) \<or> isUpdatingFromFile (ctxs s ! i) then s
      else try_catch_finally (reload_body i) (warn SyncFromFileFailed)
             (upd_ctx i (\<lambda>c. c\<lparr>isUpdatingFromFile := False\<rparr>)) s)"

text \<open>The watcher's \<open>change\<close> event: every subscribed callback runs.\<close>

definition file_changed :: "sys \<Rightarrow> sys" where
  "file_changed s =
     fold (\<lambda>i s. if watching (ctxs s ! i) then syncFromFile i s else s) [0..<length (ctxs s)] s"

text \<open>
  What reaches a context from outside: an assignment to a top-level key of \<open>value\<close>, a
  \<open>delete\<close> of one, or the watcher's notification.
\<close>

datatype signal = SetKey string json | DeleteKey string | FileNotify

fun deliver :: "nat \<Rightarrow> signal \<Rightarrow> sys \<Rightarrow> sys" where
  "deliver i (SetKey k v) s = proxy_set i k v s"
| "deliver i (DeleteKey k) s = proxy_delete i k s"
| "deliver i FileNotify s = syncFromFile i s"


section \<open>Persists in flight\<close>

text \<open>
  The loop condition of \<open>acquire\<close> (line 13) as a persist comes back to it from a \<open>continue\<close>
  or from the timer: the next exclusive create is issued, or \<open>acquire()\<close> returns \<open>false\<close> and
  \<open>performSave\<close> writes its warning and returns.
\<close>

definition loop_guard :: "task \<Rightarrow> sys \<Rightarrow> task \<times> sys" where
  "loop_guard t s =
     (if now s - t_start t < lock_timeout (ctxs s ! t_ctx t)
      then (t\<lparr>t_stage := CreateIssued\<rparr>, s)
      else (t\<lparr>t_stage := Settled\<rparr>, warn LockNotAcquired s))"

text \<open>
  One step of a persist: the call it awaits completes, and the persist runs on to its next
  \<open>await\<close> or to its end. \<open>writeJSON\<close> serialises \<open>this.data\<close> when it is called, that is when
  \<open>ensureFile\<close> has completed. The timer does not fire before its time.
\<close>

definition task_step :: "task \<Rightarrow> sys \<Rightarrow> task \<times> sys" where
  "task_step t s =
     (case t_stage t of
        CreateIssued \<Rightarrow>
          (case writeFile_wx s of
             (Created, s1) \<Rightarrow> (t\<lparr>t_stage := EnsureIssued\<rparr>, s1)
           | (IOError, s1) \<Rightarrow> (t\<lparr>t_stage := Settled\<rparr>, warn SaveFailed s1)
           | (EEXIST, s1) \<Rightarrow> (t\<lparr>t_stage := StatIssued\<rparr>, s1))
      | StatIssued \<Rightarrow>
          (case stat_mtime s of
             (None, s1) \<Rightarrow> loop_guard t s1
           | (Some mtime, s1) \<Rightarrow>
               if now s1 - mtime > lock_timeout (ctxs s1 ! t_ctx t) * 2
               then (t\<lparr>t_stage := UnlinkIssued\<rparr>, s1)
               else (t\<lparr>t_stage := TimerSet (now s1 + 10)\<rparr>, s1))
      | UnlinkIssued \<Rightarrow> loop_guard t (snd (unlink s))
      | TimerSet wake \<Rightarrow> (if wake \<le> now s then loop_guard t s else (t, s))
      | Refused \<Rightarrow> (t\<lparr>t_stage := Settled\<rparr>, warn LockNotAcquired s)
      | EnsureIssued \<Rightarrow>
          (case ensureFile s of
             (True, s1) \<Rightarrow> (t\<lparr>t_stage := WriteIssued (mirror (ctxs s1 ! t_ctx t))\<rparr>, s1)
           | (False, s1) \<Rightarrow> (t\<lparr>t_stage := ReleaseIssued True\<rparr>, s1))
      | WriteIssued d \<Rightarrow>
          (case writeJSON d s of
             (ok, s1) \<Rightarrow> (t\<lparr>t_stage := ReleaseIssued (\<not> ok)\<rparr>, s1))
      | ReleaseIssued threw \<Rightarrow>
          (case release s of
             (ok, s1) \<Rightarrow>
               (t\<lparr>t_stage := Settled\<rparr>, if threw \<or> \<not> ok then warn SaveFailed s1 else s1))
      | Settled \<Rightarrow> (t, s))"

text \<open>
  What happens in the process, one event after the other: a signal reaches a context, the
  persist with the given number takes its next step, or time passes. The calls that a step
  adds to the log of the process go to the log of the persist as well.
\<close>

datatype event = Signal nat signal | Resume nat | Elapse nat

fun occur :: "event \<Rightarrow> sys \<Rightarrow> sys" where
  "occur (Signal i sg) s = (if i < length (ctxs s) then deliver i sg s else s)"
| "occur (Resume n) s =
     (if n < length (tasks s)
      then (case task_step (tasks s ! n) s of
              (t, s1) \<Rightarrow>
                s1\<lparr>tasks := (tasks s1)
                       [n := t\<lparr>t_log := t_log t @ drop (length (trace s)) (trace s1)\<rparr>]\<rparr>)
      else s)"
| "occur (Elapse d) s = s\<lparr>now := now s + int d\<rparr>"
section \<open>Notions for the proofs\<close>

text \<open>What the file-system calls leave alone.\<close>

definition same_process :: "sys \<Rightarrow> sys \<Rightarrow> bool" where
  "same_process s s' =
     (ctxs s' = ctxs s \<and> saves s' = saves s \<and> test_mode s' = test_mode s \<and> warnings s' = warnings s
      \<and> tasks s' = tasks s)"

definition same_ctxs :: "sys \<Rightarrow> sys \<Rightarrow> bool" where
  "same_ctxs s s' =
     (ctxs s' = ctxs s \<and> saves s' = saves s \<and> test_mode s' = test_mode s \<and> tasks s' = tasks s)"

text \<open>The contexts whose effect function does something: not disposed, not in a reload.\<close>

definition live :: "sys \<Rightarrow> nat list" where
  "live s = filter (\<lambda>j. \<not> disposed (ctxs s ! j) \<and> \<not> isUpdatingFromFile (ctxs s ! j))
              [0..<length (ctxs s)]"

text \<open>A change of one Mirror, and nothing else.\<close>

definition set_mirror :: "nat \<Rightarrow> props \<Rightarrow> sys \<Rightarrow> sys" where
  "set_mirror i m s = upd_ctx i (\<lambda>c. c\<lparr>mirror := m\<rparr>) s"

text \<open>A change of one target object, its properties and its prototype, and nothing else.\<close>

definition set_target :: "nat \<Rightarrow> props \<Rightarrow> prototype \<Rightarrow> sys \<Rightarrow> sys" where
  "set_target i m p s = upd_ctx i (\<lambda>c. c\<lparr>mirror := m, proto := p\<rparr>) s"

text \<open>A function on contexts that changes the target object only.\<close>

definition target_only :: "(ctx \<Rightarrow> ctx) \<Rightarrow> bool" where
  "target_only f = (\<forall>c. f c = c\<lparr>mirror := mirror (f c), proto := proto (f c)\<rparr>)"

text \<open>
  \<open>Object.assign(target, src)\<close> on the target object alone: one \<open>Reflect.set\<close> per property
  of the source.
\<close>

definition assign_all :: "props \<Rightarrow> ctx \<Rightarrow> ctx" where
  "assign_all src = fold (\<lambda>(k, v). reflect_set k v) src"


text \<open>No persist of the process is in flight.\<close>

definition settled :: "sys \<Rightarrow> bool" where
  "settled s = (\<forall>t\<in>set (tasks s). t_stage t = Settled)"


text \<open>
  What \<open>performSave\<close> and the rejection handler of \<open>saveFile\<close> do once \<open>acquire()\<close> is over.
\<close>

definition after_acquire :: "nat \<Rightarrow> lock_outcome \<times> sys \<Rightarrow> sys" where
  "after_acquire i a =
     (case a of
        (Threw, s1) \<Rightarrow> warn SaveFailed s1
      | (Returned False, s1) \<Rightarrow> warn LockNotAcquired s1
      | (Returned True, s1) \<Rightarrow>
          (case ensureFile s1 of
             (False, s2) \<Rightarrow> warn SaveFailed (snd (release s2))
           | (True, s2) \<Rightarrow>
               (case writeJSON (mirror (ctxs s2 ! i)) s2 of
                  (False, s3) \<Rightarrow> warn SaveFailed (snd (release s3))
                | (True, s3) \<Rightarrow>
                    (case release s3 of
                       (True, s4) \<Rightarrow> s4
                     | (False, s4) \<Rightarrow> warn SaveFailed s4))))"

text \<open>
  The calls of a persist in their order. While it stands in \<open>acquire()\<close> it has made calls on
  the lock file only, none of them a successful create. Past \<open>acquire()\<close> its log is such
  calls, then the successful create, then \<open>ensureFile\<close>, then the write when \<open>ensureFile\<close>
  succeeded, and at the end the \<open>unlink\<close> of \<open>release\<close>.
\<close>

definition lock_phase :: "(fs_op \<times> path \<times> bool) list \<Rightarrow> bool" where
  "lock_phase lg = (\<forall>x\<in>set lg. fst (snd x) = LockPath \<and> x \<noteq> (WriteExcl, LockPath, True))"

fun log_fits :: "stage \<Rightarrow> (fs_op \<times> path \<times> bool) list \<Rightarrow> bool" where
  "log_fits EnsureIssued lg = (\<exists>pre. lock_phase pre \<and> lg = pre @ [(WriteExcl, LockPath, True)])"
| "log_fits (WriteIssued d) lg =
     (\<exists>pre. lock_phase pre \<and> lg = pre @ [(WriteExcl, LockPath, True), (Ensure, DocPath, True)])"
| "log_fits (ReleaseIssued threw) lg =
     (\<exists>pre e w. lock_phase pre \<and> threw = (\<not> (e \<and> w)) \<and>
        lg = pre @ (WriteExcl, LockPath, True) # (Ensure, DocPath, e) #
               (if e then [(Write, DocPath, w)] else []))"
| "log_fits Settled lg =
     (lock_phase lg \<or>
      (\<exists>pre e w u. lock_phase pre \<and>
         lg = pre @ (WriteExcl, LockPath, True) # (Ensure, DocPath, e) #
                (if e then [(Write, DocPath, w)] else []) @ [(Unlink, LockPath, u)]))"
| "log_fits st lg = lock_phase lg"

definition orderly :: "sys \<Rightarrow> bool" where
  "orderly s = (\<forall>t\<in>set (tasks s). log_fits (t_stage t) (t_log t))"

text \<open>From one state to the other, file-system calls were made on the lock file only.\<close>

definition lock_calls :: "sys \<Rightarrow> sys \<Rightarrow> bool" where
  "lock_calls s s' = (\<exists>xs. trace s' = trace s @ xs \<and> (\<forall>x\<in>set xs. fst (snd x) = LockPath))"

text \<open>The number of existence checks of the document file made so far.\<close>

definition polls :: "sys \<Rightarrow> nat" where
  "polls s = length (filter (\<lambda>x. fst x = Exists \<and> fst (snd x) = DocPath) (trace s))"

text \<open>From one state to the other, persists were started and no persist took a step.\<close>

definition spawns :: "sys \<Rightarrow> sys \<Rightarrow> bool" where
  "spawns s s' =
     (\<exists>xs. tasks s' = tasks s @ xs \<and>
        (\<forall>t\<in>set xs. t_log t = [] \<and> (t_stage t = CreateIssued \<or> t_stage t = Refused)))"

section \<open>States of the examples\<close>

text \<open>A quiet machine at time 1000 with neither file, and no context yet.\<close>

definition idle_world :: sys where
  "idle_world = \<lparr>now = 1000, marker = None, doc = Missing, pending = [], trace = [],
     warnings = [], saves = [], test_mode = False, ctxs = [], tasks = []\<rparr>"

text \<open>
  A marker left behind 300ms ago; the three calls to come take 0ms, 1ms and 0ms.
\<close>

definition stale_world :: sys where
  "stale_world = idle_world\<lparr>marker := Some 700, pending := [(0, Quiet), (1, Quiet), (0, Quiet)]\<rparr>"

text \<open>The same marker, and four calls to come that take 1ms each.\<close>

definition stale_world_4 :: sys where
  "stale_world_4 = idle_world\<lparr>marker := Some 700,
     pending := [(1, Quiet), (1, Quiet), (1, Quiet), (1, Quiet)]\<rparr>"

text \<open>Two callers of \<open>acquire()\<close> with the default timeout, as \<open>Promise.all\<close> starts them.\<close>

definition two_callers :: "contender list" where
  "two_callers = [\<lparr>c_timeout = 500, c_start = 0, c_pc = Enter\<rparr>,
                  \<lparr>c_timeout = 500, c_start = 0, c_pc = Enter\<rparr>]"

text \<open>Caller 0 wins the race: both enter and pass the condition, then caller 0 creates.\<close>

definition race_won :: "contender list \<times> sys" where
  "race_won = run [Run 0, Run 1, Run 0, Run 1, Run 0] (two_callers, idle_world)"

text \<open>Caller 1 fails to create, reads the age, sleeps 10ms and is back at the condition.\<close>

definition loser_round :: "sched list" where
  "loser_round = [Run 1, Run 1, Run 1, Tick 10, Run 1]"

text \<open>A context as the constructor leaves it, with the Mirror \<open>{a: 1}\<close>.\<close>

definition plain_ctx :: ctx where
  "plain_ctx = \<lparr>mirror = [(''a'', JNum 1)], proto = ObjectPrototype,
     disposed = False, isUpdatingFromFile = False,
     initialized = True, cleanup = None, lockTimeout = None, watching = True\<rparr>"

text \<open>One context; another process has just written \<open>{z: 9}\<close> to the document.\<close>

definition solo_changed :: sys where
  "solo_changed = idle_world\<lparr>doc := Parsed (JObj [(''z'', JNum 9)]), ctxs := [plain_ctx]\<rparr>"

text \<open>One context; the document file holds text that does not parse.\<close>

definition solo_malformed :: sys where
  "solo_malformed = idle_world\<lparr>doc := Unparsable, ctxs := [plain_ctx]\<rparr>"

text \<open>
  Two contexts of one process on the same document, as \<open>tests/index.test.ts\<close> creates them
  for one id, under \<open>NODE_ENV=test\<close>; another process has just written \<open>{z: 9}\<close>.
\<close>

definition pair_changed :: sys where
  "pair_changed = idle_world\<lparr>test_mode := True, doc := Parsed (JObj [(''z'', JNum 9)]),
     ctxs := [plain_ctx, plain_ctx]\<rparr>"

text \<open>The same two contexts with the document in step with their Mirrors.\<close>

definition pair_synced :: sys where
  "pair_synced = idle_world\<lparr>test_mode := True, doc := Parsed (JObj [(''a'', JNum 1)]),
     ctxs := [plain_ctx, plain_ctx]\<rparr>"

text \<open>
  The two contexts under \<open>NODE_ENV=test\<close> while another process holds the lock: its marker is
  10ms old.
\<close>

definition pair_locked :: sys where
  "pair_locked = pair_changed\<lparr>marker := Some 990\<rparr>"

text \<open>One context in production mode while another process holds a fresh marker.\<close>

definition solo_locked :: sys where
  "solo_locked = solo_changed\<lparr>marker := Some 1000\<rparr>"




text \<open>The options \<open>{ data: { a: 1 } }\<close>, and a document that holds \<open>{a: 7, b: "x"}\<close>.\<close>

definition seed_a :: options where
  "seed_a = \<lparr>opt_data = Some [(''a'', JNum 1)], opt_cleanup = None, opt_lockTimeout = None\<rparr>"

definition written_world :: sys where
  "written_world = idle_world\<lparr>doc := Parsed (JObj [(''a'', JNum 7), (''b'', JStr ''x'')])\<rparr>"

text \<open>
  A context built with no data on an empty directory: its Mirror is empty, it is not
  initialized, and the persist of its constructor has written \<open>{}\<close> to the file.
\<close>

definition fresh_ctx :: ctx where
  "fresh_ctx = plain_ctx\<lparr>mirror := [], initialized := False\<rparr>"

definition waiting_world :: sys where
  "waiting_world = idle_world\<lparr>doc := Parsed (JObj []), ctxs := [fresh_ctx]\<rparr>"

text \<open>
  The same, and another process writes \<open>{message: "hello"}\<close> 30ms into the first sleep of
  \<open>ready()\<close>: the third file-system call to come finds it.
\<close>

definition populated_world :: sys where
  "populated_world = waiting_world\<lparr>pending :=
     [(0, Quiet), (0, Quiet), (30, DocSet (Parsed (JObj [(''message'', JStr ''hello'')])))]\<rparr>"


text \<open>
  The process after \<open>createFileContext(id, { data: { a: 1 } })\<close> on an empty directory,
  outside test mode: the file exists and is empty, and the persist that the constructor
  started is in flight.
\<close>

definition built :: sys where
  "built = (case construct seed_a idle_world of Inr s \<Rightarrow> s | Inl e \<Rightarrow> idle_world)"

text \<open>A document file that holds the JSON value \<open>null\<close>.\<close>

definition null_world :: sys where
  "null_world = idle_world\<lparr>doc := Parsed JNull\<rparr>"
section \<open>Termination of the loop of acquire\<close>

text \<open>
  Every file-system call consumes a pending event when there is one, time never runs
  backwards, and once no event is pending the marker only changes by the calls of the loop
  itself.
\<close>

lemma env_step_pending_le: "length (pending (snd (env_step s))) \<le> length (pending s)"
  by (auto simp: env_step_def Let_def split: list.splits interference.splits prod.splits)

lemma env_step_now_le: "now s \<le> now (snd (env_step s))"
  by (auto simp: env_step_def Let_def split: list.splits interference.splits prod.splits)

lemma env_step_idle: "pending s = [] \<Longrightarrow> env_step s = (False, s)"
  by (simp add: env_step_def)

lemma env_step_pending_lt: "pending s \<noteq> [] \<Longrightarrow> length (pending (snd (env_step s))) < length (pending s)"
  by (auto simp: env_step_def Let_def split: list.splits interference.splits prod.splits)

lemma wx_pending_le: "length (pending (snd (writeFile_wx s))) \<le> length (pending s)"
  using env_step_pending_le[of s]
  by (auto simp: writeFile_wx_def logged_def split: prod.splits bool.splits option.splits)

lemma wx_pending_lt: "pending s \<noteq> [] \<Longrightarrow> length (pending (snd (writeFile_wx s))) < length (pending s)"
  using env_step_pending_lt[of s]
  by (auto simp: writeFile_wx_def logged_def split: prod.splits bool.splits option.splits)

lemma wx_now_le: "now s \<le> now (snd (writeFile_wx s))"
  using env_step_now_le[of s]
  by (auto simp: writeFile_wx_def logged_def split: prod.splits bool.splits option.splits)

lemma wx_idle: "pending s = [] \<Longrightarrow> writeFile_wx s = (EEXIST, s1) \<Longrightarrow>
   marker s \<noteq> None \<and> marker s1 = marker s \<and> now s1 = now s \<and> pending s1 = []"
  by (auto simp: writeFile_wx_def logged_def env_step_idle split: prod.splits bool.splits option.splits)

lemma stat_pending_le: "length (pending (snd (stat_mtime s))) \<le> length (pending s)"
  using env_step_pending_le[of s]
  by (auto simp: stat_mtime_def logged_def split: prod.splits bool.splits option.splits)

lemma stat_now_le: "now s \<le> now (snd (stat_mtime s))"
  using env_step_now_le[of s]
  by (auto simp: stat_mtime_def logged_def split: prod.splits bool.splits option.splits)

lemma stat_idle: "pending s = [] \<Longrightarrow> stat_mtime s = (r, s1) \<Longrightarrow>
   r = marker s \<and> marker s1 = marker s \<and> now s1 = now s \<and> pending s1 = []"
  by (auto simp: stat_mtime_def logged_def env_step_idle split: prod.splits bool.splits option.splits)

lemma unlink_pending_le: "length (pending (snd (unlink s))) \<le> length (pending s)"
  using env_step_pending_le[of s]
  by (auto simp: unlink_def logged_def split: prod.splits bool.splits option.splits)

lemma unlink_now_le: "now s \<le> now (snd (unlink s))"
  using env_step_now_le[of s]
  by (auto simp: unlink_def logged_def split: prod.splits bool.splits option.splits)

lemma unlink_idle: "pending s = [] \<Longrightarrow>
   marker (snd (unlink s)) = None \<and> now (snd (unlink s)) = now s \<and> pending (snd (unlink s)) = []"
  by (auto simp: unlink_def logged_def env_step_idle split: prod.splits bool.splits option.splits)

lemma acquire_loop_rel_stat:
  assumes "writeFile_wx s = (EEXIST, s1)" "stat_mtime s1 = (None, s2)"
  shows "length (pending s2) < length (pending s)"
proof (cases "pending s = []")
  case True
  with assms show ?thesis
    using wx_idle[of s s1] stat_idle[of s1 None s2] by auto
next
  case False
  with assms show ?thesis
    using wx_pending_lt[of s] stat_pending_le[of s1] by auto
qed

lemma acquire_loop_rel_unlink:
  assumes "writeFile_wx s = (EEXIST, s1)" "stat_mtime s1 = (Some m, s2)"
  shows "length (pending (snd (unlink s2))) < length (pending s) \<or>
         length (pending (snd (unlink s2))) = length (pending s) \<and>
         now (snd (unlink s2)) = now s \<and> marker s \<noteq> None \<and> marker (snd (unlink s2)) = None"
proof (cases "pending s = []")
  case True
  with assms show ?thesis
    using wx_idle[of s s1] stat_idle[of s1 "Some m" s2] unlink_idle[of s2] by auto
next
  case False
  with assms show ?thesis
    using wx_pending_lt[of s] stat_pending_le[of s1] unlink_pending_le[of s2] by auto
qed

lemma acquire_loop_rel_sleep:
  assumes "writeFile_wx s = (EEXIST, s1)" "stat_mtime s1 = (r, s2)"
  shows "length (pending (sleep 10 s2)) \<le> length (pending s) \<and> now s + 10 \<le> now (sleep 10 s2)"
  using assms wx_pending_le[of s] stat_pending_le[of s1] wx_now_le[of s] stat_now_le[of s1]
  by (auto simp: sleep_def)

termination acquire_loop
proof (relation "measures [\<lambda>(t, st, s). length (pending s),
                           \<lambda>(t, st, s). nat (t - (now s - st)),
                           \<lambda>(t, st, s). case marker s of None \<Rightarrow> 0 | Some m \<Rightarrow> Suc 0]")
  show "wf (measures [\<lambda>(t, st, s). length (pending s),
                      \<lambda>(t, st, s). nat (t - (now s - st)),
                      \<lambda>(t :: int, st :: int, s). case marker s of None \<Rightarrow> 0 | Some m \<Rightarrow> Suc 0])"
    by simp
next
  fix timeout start :: int and s y ya :: sys and x xa
  assume "now s - start < timeout" "(x, y) = writeFile_wx s" "x = EEXIST"
    "(xa, ya) = stat_mtime y" "xa = None"
  then have "length (pending ya) < length (pending s)"
    using acquire_loop_rel_stat[of s y ya] by simp
  then show "((timeout, start, ya), timeout, start, s) \<in>
      measures [\<lambda>(t, st, s). length (pending s),
                \<lambda>(t, st, s). nat (t - (now s - st)),
                \<lambda>(t, st, s). case marker s of None \<Rightarrow> 0 | Some m \<Rightarrow> Suc 0]"
    by simp
next
  fix timeout start :: int and s y ya :: sys and x xa x2
  assume "now s - start < timeout" "(x, y) = writeFile_wx s" "x = EEXIST"
    "(xa, ya) = stat_mtime y" "xa = Some x2" "timeout * 2 < now ya - x2"
  then have "length (pending (snd (unlink ya))) < length (pending s) \<or>
         length (pending (snd (unlink ya))) = length (pending s) \<and>
         now (snd (unlink ya)) = now s \<and> marker s \<noteq> None \<and> marker (snd (unlink ya)) = None"
    using acquire_loop_rel_unlink[of s y x2 ya] by simp
  then show "((timeout, start, snd (unlink ya)), timeout, start, s) \<in>
      measures [\<lambda>(t, st, s). length (pending s),
                \<lambda>(t, st, s). nat (t - (now s - st)),
                \<lambda>(t, st, s). case marker s of None \<Rightarrow> 0 | Some m \<Rightarrow> Suc 0]"
    by auto
next
  fix timeout start :: int and s y ya :: sys and x xa x2
  assume a: "now s - start < timeout" "(x, y) = writeFile_wx s" "x = EEXIST"
    "(xa, ya) = stat_mtime y" "xa = Some x2" "\<not> timeout * 2 < now ya - x2"
  then have "length (pending (sleep 10 ya)) \<le> length (pending s) \<and> now s + 10 \<le> now (sleep 10 ya)"
    using acquire_loop_rel_sleep[of s y xa ya] by simp
  with a(1) show "((timeout, start, sleep 10 ya), timeout, start, s) \<in>
      measures [\<lambda>(t, st, s). length (pending s),
                \<lambda>(t, st, s). nat (t - (now s - st)),
                \<lambda>(t, st, s). case marker s of None \<Rightarrow> 0 | Some m \<Rightarrow> Suc 0]"
    by auto
qed


declare acquire_loop.simps [simp del]

section \<open>The lock: one caller\<close>

lemma acquire_free:
  assumes "0 < t" "env_step s = (False, s1)" "marker s1 = None"
  shows "acquire t s = (Returned True, logged WriteExcl LockPath True (s1\<lparr>marker := Some (now s1)\<rparr>))"
  unfolding acquire_def
  by (subst acquire_loop.simps) (simp add: assms writeFile_wx_def)

lemma acquire_nonpositive: "t \<le> 0 \<Longrightarrow> acquire t s = (Returned False, s)"
  unfolding acquire_def
  by (subst acquire_loop.simps) simp

lemma acquire_stale_step:
  assumes "0 < t" "writeFile_wx s = (EEXIST, s1)" "stat_mtime s1 = (Some m, s2)" "t * 2 < now s2 - m"
  shows "acquire t s = acquire_loop t (now s) (snd (unlink s2))"
  unfolding acquire_def
  by (subst acquire_loop.simps) (simp add: assms)

lemma acquire_stale_success:
  assumes "marker s = Some m"
    and "pending s = (d1, Quiet) # (d2, Quiet) # (d3, iv) # (d4, Quiet) # rest"
    and "iv = Quiet \<or> iv = MarkerSet None"
    and "t * 2 < now s + int d1 + int d2 - m"
    and "int d1 + int d2 + int d3 < t"
  shows "acquire t s =
     (Returned True,
      s\<lparr>now := now s + int d1 + int d2 + int d3 + int d4,
        marker := Some (now s + int d1 + int d2 + int d3 + int d4),
        pending := rest,
        trace := trace s @ [(WriteExcl, LockPath, False), (Stat, LockPath, True),
                            (Unlink, LockPath, iv = Quiet), (WriteExcl, LockPath, True)]\<rparr>)"
proof -
  have t: "0 < t" using assms(5) by linarith
  show ?thesis
    using assms(3)
  proof
    assume "iv = Quiet"
    then show ?thesis
      using assms(5)
      unfolding acquire_def
      apply (subst acquire_loop.simps)
      apply (simp add: assms(1,2,4) t writeFile_wx_def env_step_def logged_def stat_mtime_def unlink_def)
      apply (subst acquire_loop.simps)
      apply (simp add: assms(1,2,4) t writeFile_wx_def env_step_def logged_def stat_mtime_def unlink_def)
      done
  next
    assume "iv = MarkerSet None"
    then show ?thesis
      using assms(5)
      unfolding acquire_def
      apply (subst acquire_loop.simps)
      apply (simp add: assms(1,2,4) t writeFile_wx_def env_step_def logged_def stat_mtime_def unlink_def)
      apply (subst acquire_loop.simps)
      apply (simp add: assms(1,2,4) t writeFile_wx_def env_step_def logged_def stat_mtime_def unlink_def)
      done
  qed
qed

lemma acquire_stale_timeout:
  assumes "marker s = Some m"
    and "pending s = (d1, Quiet) # (d2, Quiet) # (d3, Quiet) # rest"
    and "0 < t"
    and "t * 2 < now s + int d1 + int d2 - m"
    and "t \<le> int d1 + int d2 + int d3"
  shows "acquire t s =
     (Returned False,
      s\<lparr>now := now s + int d1 + int d2 + int d3, marker := None, pending := rest,
        trace := trace s @ [(WriteExcl, LockPath, False), (Stat, LockPath, True),
                            (Unlink, LockPath, True)]\<rparr>)"
  using assms(5)
  unfolding acquire_def
  apply (subst acquire_loop.simps)
  apply (simp add: assms(1,2,3,4) writeFile_wx_def env_step_def logged_def stat_mtime_def unlink_def)
  apply (subst acquire_loop.simps)
  apply (simp add: assms(1,2,3,4) writeFile_wx_def env_step_def logged_def stat_mtime_def unlink_def)
  done

section \<open>The lock: concurrent callers\<close>

lemma release_idle:
  "pending s = [] \<Longrightarrow> pending (snd (release s)) = [] \<and> marker (snd (release s)) = None
     \<and> now (snd (release s)) = now s"
  by (auto simp: release_def unlink_def env_step_idle logged_def split: option.splits)

lemma contender_step_pending:
  "pending s = [] \<Longrightarrow> pending (snd (contender_step c s)) = []"
  by (auto simp: contender_step_def writeFile_wx_def stat_mtime_def unlink_def env_step_idle logged_def
           split: pc.splits option.splits)

lemma contender_step_success:
  assumes "pending s = []" "c_pc (fst (contender_step c s)) = Finished (Returned True)"
  shows "c_pc c = Finished (Returned True) \<or>
         (c_pc c = Create \<and> marker s = None \<and> marker (snd (contender_step c s)) = Some (now s))"
  using assms
  by (auto simp: contender_step_def writeFile_wx_def stat_mtime_def unlink_def env_step_idle logged_def
           split: pc.splits option.splits if_splits)

lemma contender_step_finished:
  "c_pc c = Finished r \<Longrightarrow> contender_step c s = (c, s)"
  by (simp add: contender_step_def)

lemma sched_step_pending:
  assumes "pending s = []"
  shows "pending (snd (sched_step e (cs, s))) = []"
proof (cases e)
  case (Run i)
  then show ?thesis
    using assms contender_step_pending[of s "cs ! i"] by (auto split: prod.splits)
next
  case (Tick d)
  then show ?thesis using assms by simp
next
  case ReleaseCall
  then show ?thesis using assms by (simp add: release_idle)
qed

lemma sched_step_length: "length (fst (sched_step e (cs, s))) = length cs"
  by (cases e) (auto split: prod.splits)

lemma succeeded_update:
  assumes "i < length cs"
  shows "succeeded (cs[i := c]) =
     (if c_pc c = Finished (Returned True) then insert i (succeeded cs) else succeeded cs - {i})"
  using assms by (auto simp: succeeded_def nth_list_update)

lemma sched_step_success:
  assumes "pending s = []"
  shows "succeeded (fst (sched_step e (cs, s))) = succeeded cs \<or>
         (marker s = None \<and> marker (snd (sched_step e (cs, s))) = Some (now s) \<and>
          (\<exists>i. e = Run i \<and> i < length cs \<and> i \<notin> succeeded cs \<and>
               succeeded (fst (sched_step e (cs, s))) = insert i (succeeded cs)))"
proof (cases e)
  case (Run i)
  show ?thesis
  proof (cases "i < length cs")
    case False
    with Run show ?thesis by simp
  next
    case True
    obtain c s1 where st: "contender_step (cs ! i) s = (c, s1)" by (cases "contender_step (cs ! i) s")
    show ?thesis
    proof (cases "c_pc c = Finished (Returned True)")
      case fin: True
      from contender_step_success[OF assms, of "cs ! i"] st fin
      consider "c_pc (cs ! i) = Finished (Returned True)"
        | "c_pc (cs ! i) = Create" "marker s = None" "marker s1 = Some (now s)"
        by auto
      then show ?thesis
      proof cases
        case 1
        then have "i \<in> succeeded cs" using True by (simp add: succeeded_def)
        then show ?thesis using Run True st fin by (auto simp: succeeded_update)
      next
        case 2
        then have "i \<notin> succeeded cs" by (simp add: succeeded_def)
        then show ?thesis using Run True st fin 2 by (auto simp: succeeded_update)
      qed
    next
      case nofin: False
      have "c_pc (cs ! i) \<noteq> Finished (Returned True)"
        using contender_step_finished[of "cs ! i" "Returned True" s] st nofin by auto
      then have "i \<notin> succeeded cs" by (simp add: succeeded_def)
      then show ?thesis using Run True st nofin by (auto simp: succeeded_update)
    qed
  qed
next
  case (Tick d)
  then show ?thesis by simp
next
  case ReleaseCall
  then show ?thesis by simp
qed

lemma held_no_success:
  "pending (snd st) = [] \<Longrightarrow> held_throughout evs st \<Longrightarrow> succeeded (fst (run evs st)) = succeeded (fst st)"
proof (induction evs arbitrary: st)
  case Nil
  then show ?case by simp
next
  case (Cons e es)
  obtain cs s where st: "st = (cs, s)" by (cases st)
  from Cons.prems st have p: "pending s = []" and m: "marker s \<noteq> None"
    and h: "held_throughout es (sched_step e (cs, s))" by auto
  have "succeeded (fst (sched_step e (cs, s))) = succeeded cs"
    using sched_step_success[OF p, of e cs] m by auto
  moreover have "pending (snd (sched_step e (cs, s))) = []"
    using sched_step_pending[OF p] .
  ultimately show ?case
    using Cons.IH[of "sched_step e (cs, s)"] h st by simp
qed

lemma release_then_guard:
  assumes "j < length cs" "pending s = []" "c_pc (cs ! j) = Guard"
    "now s - c_start (cs ! j) < c_timeout (cs ! j)"
  shows "j \<in> succeeded (fst (run [ReleaseCall, Run j, Run j] (cs, s)))"
  using assms release_idle[of s]
  by (auto simp: succeeded_def contender_step_def writeFile_wx_def env_step_idle logged_def
           split: prod.splits)

lemma release_then_enter:
  assumes "j < length cs" "pending s = []" "c_pc (cs ! j) = Enter" "0 < c_timeout (cs ! j)"
  shows "j \<in> succeeded (fst (run [ReleaseCall, Run j, Run j, Run j] (cs, s)))"
  using assms release_idle[of s]
  by (auto simp: succeeded_def contender_step_def writeFile_wx_def env_step_idle logged_def
           split: prod.splits)

lemma run_append: "run (a @ b) st = run b (run a st)"
  by (induction a arbitrary: st) simp_all

text \<open>
  One caller alone, stepped until it is done with 10ms passing at each sleep, does what
  the loop of acquire does.
\<close>

lemma alone_run_is_acquire_loop:
  "\<exists>evs. set evs \<subseteq> {Run 0, Tick 10} \<and>
     run evs ([\<lparr>c_timeout = t, c_start = st, c_pc = Guard\<rparr>], s) =
       ([\<lparr>c_timeout = t, c_start = st, c_pc = Finished (fst (acquire_loop t st s))\<rparr>],
        snd (acquire_loop t st s))"
proof (induction t st s rule: acquire_loop.induct)
  case (1 timeout start s)
  let ?c = "\<lambda>p. \<lparr>c_timeout = timeout, c_start = start, c_pc = p\<rparr>"
  show ?case
  proof (cases "now s - start < timeout")
    case False
    have "run [Run 0] ([?c Guard], s) = ([?c (Finished (Returned False))], s)"
      using False by (simp add: contender_step_def)
    moreover have "acquire_loop timeout start s = (Returned False, s)"
      using False by (subst acquire_loop.simps) simp
    ultimately show ?thesis by (intro exI[of _ "[Run 0]"]) simp
  next
    case True
    have g: "run [Run 0] ([?c Guard], s) = ([?c Create], s)"
      using True by (simp add: contender_step_def)
    obtain r s1 where w: "writeFile_wx s = (r, s1)" by (cases "writeFile_wx s")
    show ?thesis
    proof (cases r)
      case Created
      have "run [Run 0, Run 0] ([?c Guard], s) = ([?c (Finished (Returned True))], s1)"
        using True w Created by (simp add: contender_step_def)
      moreover have "acquire_loop timeout start s = (Returned True, s1)"
        using True w Created by (subst acquire_loop.simps) simp
      ultimately show ?thesis by (intro exI[of _ "[Run 0, Run 0]"]) simp
    next
      case IOError
      have "run [Run 0, Run 0] ([?c Guard], s) = ([?c (Finished Threw)], s1)"
        using True w IOError by (simp add: contender_step_def)
      moreover have "acquire_loop timeout start s = (Threw, s1)"
        using True w IOError by (subst acquire_loop.simps) simp
      ultimately show ?thesis by (intro exI[of _ "[Run 0, Run 0]"]) simp
    next
      case EEXIST
      obtain q s2 where q: "stat_mtime s1 = (q, s2)" by (cases "stat_mtime s1")
      show ?thesis
      proof (cases q)
        case None
        have a: "run [Run 0, Run 0, Run 0] ([?c Guard], s) = ([?c Guard], s2)"
          using True w EEXIST q None by (simp add: contender_step_def)
        obtain evs where e: "set evs \<subseteq> {Run 0, Tick 10}"
          "run evs ([?c Guard], s2) =
             ([?c (Finished (fst (acquire_loop timeout start s2)))], snd (acquire_loop timeout start s2))"
          using "1.IH"(1)[OF True w[symmetric] EEXIST q[symmetric] None] by blast
        have "acquire_loop timeout start s = acquire_loop timeout start s2"
          using True w EEXIST q None by (subst acquire_loop.simps) simp
        then have "run ([Run 0, Run 0, Run 0] @ evs) ([?c Guard], s) =
             ([?c (Finished (fst (acquire_loop timeout start s)))], snd (acquire_loop timeout start s))"
          using a e(2) by (simp only: run_append)
        then show ?thesis using e(1) by (intro exI[of _ "[Run 0, Run 0, Run 0] @ evs"]) simp
      next
        case (Some m)
        show ?thesis
        proof (cases "timeout * 2 < now s2 - m")
          case stale: True
          have a: "run [Run 0, Run 0, Run 0, Run 0, Run 0] ([?c Guard], s) = ([?c Guard], snd (unlink s2))"
            using True w EEXIST q Some stale by (simp add: contender_step_def)
          obtain evs where e: "set evs \<subseteq> {Run 0, Tick 10}"
            "run evs ([?c Guard], snd (unlink s2)) =
               ([?c (Finished (fst (acquire_loop timeout start (snd (unlink s2)))))],
                snd (acquire_loop timeout start (snd (unlink s2))))"
            using "1.IH"(2)[OF True w[symmetric] EEXIST q[symmetric] Some stale] by blast
          have "acquire_loop timeout start s = acquire_loop timeout start (snd (unlink s2))"
            using True w EEXIST q Some stale by (subst acquire_loop.simps) simp
          then have "run ([Run 0, Run 0, Run 0, Run 0, Run 0] @ evs) ([?c Guard], s) =
             ([?c (Finished (fst (acquire_loop timeout start s)))], snd (acquire_loop timeout start s))"
            using a e(2) by (simp only: run_append)
          then show ?thesis
            using e(1) by (intro exI[of _ "[Run 0, Run 0, Run 0, Run 0, Run 0] @ evs"]) simp
        next
          case fresh: False
          have a: "run [Run 0, Run 0, Run 0, Run 0, Tick 10, Run 0] ([?c Guard], s) =
                     ([?c Guard], sleep 10 s2)"
            using True w EEXIST q Some fresh by (simp add: contender_step_def sleep_def)
          obtain evs where e: "set evs \<subseteq> {Run 0, Tick 10}"
            "run evs ([?c Guard], sleep 10 s2) =
               ([?c (Finished (fst (acquire_loop timeout start (sleep 10 s2))))],
                snd (acquire_loop timeout start (sleep 10 s2)))"
            using "1.IH"(3)[OF True w[symmetric] EEXIST q[symmetric] Some fresh] by blast
          have "acquire_loop timeout start s = acquire_loop timeout start (sleep 10 s2)"
            using True w EEXIST q Some fresh by (subst acquire_loop.simps) simp
          then have "run ([Run 0, Run 0, Run 0, Run 0, Tick 10, Run 0] @ evs) ([?c Guard], s) =
             ([?c (Finished (fst (acquire_loop timeout start s)))], snd (acquire_loop timeout start s))"
            using a e(2) by (simp only: run_append)
          then show ?thesis
            using e(1) by (intro exI[of _ "[Run 0, Run 0, Run 0, Run 0, Tick 10, Run 0] @ evs"]) simp
        qed
      qed
    qed
  qed
qed

lemma alone_run_is_acquire:
  "\<exists>evs. set evs \<subseteq> {Run 0, Tick 10} \<and>
     run evs ([\<lparr>c_timeout = t, c_start = st, c_pc = Enter\<rparr>], s) =
       ([\<lparr>c_timeout = t, c_start = now s, c_pc = Finished (fst (acquire t s))\<rparr>], snd (acquire t s))"
proof -
  obtain evs where e: "set evs \<subseteq> {Run 0, Tick 10}"
    "run evs ([\<lparr>c_timeout = t, c_start = now s, c_pc = Guard\<rparr>], s) =
       ([\<lparr>c_timeout = t, c_start = now s, c_pc = Finished (fst (acquire_loop t (now s) s))\<rparr>],
        snd (acquire_loop t (now s) s))"
    using alone_run_is_acquire_loop[of t "now s" s] by blast
  have "run [Run 0] ([\<lparr>c_timeout = t, c_start = st, c_pc = Enter\<rparr>], s) =
          ([\<lparr>c_timeout = t, c_start = now s, c_pc = Guard\<rparr>], s)"
    by (simp add: contender_step_def)
  then have "run ([Run 0] @ evs) ([\<lparr>c_timeout = t, c_start = st, c_pc = Enter\<rparr>], s) =
       ([\<lparr>c_timeout = t, c_start = now s, c_pc = Finished (fst (acquire t s))\<rparr>], snd (acquire t s))"
    using e(2) by (simp only: run_append acquire_def)
  then show ?thesis using e(1) by (intro exI[of _ "[Run 0] @ evs"]) simp
qed

section \<open>What each operation leaves alone\<close>

lemma same_process_refl [simp]: "same_process s s"
  by (simp add: same_process_def)

lemma same_process_trans: "same_process s s1 \<Longrightarrow> same_process s1 s2 \<Longrightarrow> same_process s s2"
  by (simp add: same_process_def)

lemma env_step_same: "same_process s (snd (env_step s))"
  by (auto simp: same_process_def env_step_def Let_def split: list.splits interference.splits)

lemma env_step_sameD: "env_step s = (b, s1) \<Longrightarrow> same_process s s1"
  using env_step_same[of s] by simp

lemma writeFile_wx_same: "same_process s (snd (writeFile_wx s))"
  using env_step_same[of s]
  by (auto simp: same_process_def writeFile_wx_def logged_def split: prod.splits bool.splits option.splits)

lemma stat_mtime_same: "same_process s (snd (stat_mtime s))"
  using env_step_same[of s]
  by (auto simp: same_process_def stat_mtime_def logged_def split: prod.splits bool.splits option.splits)

lemma unlink_same: "same_process s (snd (unlink s))"
  using env_step_same[of s]
  by (auto simp: same_process_def unlink_def logged_def split: prod.splits bool.splits option.splits)

lemma sleep_same: "same_process s (sleep ms s)"
  by (simp add: same_process_def sleep_def)

lemma existsSync_same: "same_process s (snd (existsSync p s))"
  using env_step_same[of s]
  by (auto simp: same_process_def existsSync_def logged_def Let_def split: prod.splits)

lemma ensureFile_same: "same_process s (snd (ensureFile s))"
  using env_step_same[of s]
  by (auto simp: same_process_def ensureFile_def logged_def split: prod.splits bool.splits)

lemma readJSON_same: "same_process s (snd (readJSON s))"
  using env_step_same[of s]
  by (auto simp: same_process_def readJSON_def logged_def split: prod.splits bool.splits file_state.splits)

lemma writeJSON_same: "same_process s (snd (writeJSON d s))"
  using env_step_same[of s]
  by (auto simp: same_process_def writeJSON_def logged_def split: prod.splits bool.splits)

lemma removeSync_same: "same_process s (snd (removeSync p s))"
  using env_step_same[of s]
  by (auto simp: same_process_def removeSync_def logged_def split: prod.splits bool.splits path.splits)

lemma release_same: "same_process s (snd (release s))"
  using unlink_same[of s]
  by (auto simp: release_def split: prod.splits unlink_result.splits)

lemma loadFile_same: "same_process s (snd (loadFile s))"
proof -
  obtain e s1 where e: "existsSync DocPath s = (e, s1)" by (cases "existsSync DocPath s")
  obtain r s2 where r: "readJSON s1 = (r, s2)" by (cases "readJSON s1")
  have "same_process s s1" using existsSync_same[of s DocPath] e by simp
  moreover have "same_process s1 s2" using readJSON_same[of s1] r by simp
  ultimately have "same_process s s2" by (rule same_process_trans)
  then show ?thesis
    using e r \<open>same_process s s1\<close> by (auto simp: loadFile_def split: option.splits bool.splits)
qed

lemma acquire_loop_same: "same_process s (snd (acquire_loop t st s))"
proof (induction t st s rule: acquire_loop.induct)
  case (1 timeout start s)
  show ?case
  proof (cases "now s - start < timeout")
    case False
    then show ?thesis by (subst acquire_loop.simps) simp
  next
    case True
    obtain r s1 where w: "writeFile_wx s = (r, s1)" by (cases "writeFile_wx s")
    have a: "same_process s s1" using writeFile_wx_same[of s] w by simp
    show ?thesis
    proof (cases r)
      case Created
      then show ?thesis using True w a by (subst acquire_loop.simps) simp
    next
      case IOError
      then show ?thesis using True w a by (subst acquire_loop.simps) simp
    next
      case EEXIST
      obtain q s2 where q: "stat_mtime s1 = (q, s2)" by (cases "stat_mtime s1")
      have b: "same_process s s2"
        using a stat_mtime_same[of s1] q by (auto intro: same_process_trans)
      show ?thesis
      proof (cases q)
        case None
        have "same_process s2 (snd (acquire_loop timeout start s2))"
          using "1.IH"(1)[OF True w[symmetric] EEXIST q[symmetric] None] .
        then show ?thesis
          using True w EEXIST q None b
          by (subst acquire_loop.simps) (auto intro: same_process_trans)
      next
        case (Some m)
        show ?thesis
        proof (cases "timeout * 2 < now s2 - m")
          case stale: True
          have "same_process (snd (unlink s2)) (snd (acquire_loop timeout start (snd (unlink s2))))"
            using "1.IH"(2)[OF True w[symmetric] EEXIST q[symmetric] Some stale] .
          then have "same_process s (snd (acquire_loop timeout start (snd (unlink s2))))"
            using b unlink_same[of s2] by (blast intro: same_process_trans)
          then show ?thesis
            using True w EEXIST q Some stale
            by (subst acquire_loop.simps) simp
        next
          case fresh: False
          have "same_process (sleep 10 s2) (snd (acquire_loop timeout start (sleep 10 s2)))"
            using "1.IH"(3)[OF True w[symmetric] EEXIST q[symmetric] Some fresh] .
          then have "same_process s (snd (acquire_loop timeout start (sleep 10 s2)))"
            using b sleep_same[of s2 10] by (blast intro: same_process_trans)
          then show ?thesis
            using True w EEXIST q Some fresh
            by (subst acquire_loop.simps) simp
        qed
      qed
    qed
  qed
qed

lemma acquire_same: "same_process s (snd (acquire t s))"
  by (simp add: acquire_def acquire_loop_same)


lemma same_ctxs_refl [simp]: "same_ctxs s s"
  by (simp add: same_ctxs_def)

lemma same_ctxs_trans: "same_ctxs s s1 \<Longrightarrow> same_ctxs s1 s2 \<Longrightarrow> same_ctxs s s2"
  by (simp add: same_ctxs_def)

lemma same_process_ctxs: "same_process s s' \<Longrightarrow> same_ctxs s s'"
  by (simp add: same_process_def same_ctxs_def)

lemma warn_same_ctxs: "same_ctxs s s' \<Longrightarrow> same_ctxs s (warn m s')"
  by (simp add: same_ctxs_def warn_def)

lemma performSave_same: "same_ctxs s (snd (performSave i s))"
proof -
  obtain r s1 where a: "acquire (lock_timeout (ctxs s ! i)) s = (r, s1)"
    by (cases "acquire (lock_timeout (ctxs s ! i)) s")
  have s1: "same_process s s1" using acquire_same[of s "lock_timeout (ctxs s ! i)"] a by simp
  obtain e s2 where e: "ensureFile s1 = (e, s2)" by (cases "ensureFile s1")
  have s2: "same_process s s2"
    using s1 ensureFile_same[of s1] e by (auto intro: same_process_trans)
  obtain w s3 where w: "writeJSON (mirror (ctxs s2 ! i)) s2 = (w, s3)"
    by (cases "writeJSON (mirror (ctxs s2 ! i)) s2")
  have s3: "same_process s s3"
    using s2 writeJSON_same[of s2 "mirror (ctxs s2 ! i)"] w by (auto intro: same_process_trans)
  have r2: "same_process s (snd (release s2))"
    using s2 release_same[of s2] by (auto intro: same_process_trans)
  have r3: "same_process s (snd (release s3))"
    using s3 release_same[of s3] by (auto intro: same_process_trans)
  show ?thesis
    using a e w s1 r2 r3
    by (auto simp: performSave_def intro!: same_process_ctxs warn_same_ctxs
             split: lock_outcome.splits bool.splits prod.splits)
qed

lemma performSyncSave_same: "same_ctxs s (performSyncSave i s)"
  using writeJSON_same[of s "mirror (ctxs s ! i)"]
  by (auto simp: performSyncSave_def intro!: same_process_ctxs warn_same_ctxs
           split: bool.splits prod.splits)

lemma saveFile_production:
  "\<not> test_mode s \<Longrightarrow> saveFile i s = start_save i (s\<lparr>saves := saves s @ [i]\<rparr>)"
  by (simp add: saveFile_def Let_def)

lemma saveFile_test:
  "test_mode s \<Longrightarrow> saveFile i s = performSyncSave i (s\<lparr>saves := saves s @ [i]\<rparr>)"
  by (simp add: saveFile_def Let_def)

lemma saveFile_frame:
  "ctxs (saveFile i s) = ctxs s \<and> saves (saveFile i s) = saves s @ [i]
   \<and> test_mode (saveFile i s) = test_mode s"
proof -
  let ?s0 = "s\<lparr>saves := saves s @ [i]\<rparr>"
  have b: "same_ctxs ?s0 (performSyncSave i ?s0)" by (rule performSyncSave_same)
  show ?thesis
    using b by (auto simp: saveFile_def Let_def same_ctxs_def start_save_def)
qed

lemma run_effect_frame:
  "ctxs (run_effect j s) = ctxs s \<and> test_mode (run_effect j s) = test_mode s \<and>
   saves (run_effect j s) =
     saves s @ (if \<not> disposed (ctxs s ! j) \<and> \<not> isUpdatingFromFile (ctxs s ! j) then [j] else [])"
  using saveFile_frame[of j s] by (simp add: run_effect_def)

lemma fold_run_effect_frame:
  "ctxs (fold run_effect js s) = ctxs s \<and> test_mode (fold run_effect js s) = test_mode s \<and>
   saves (fold run_effect js s) =
     saves s @ filter (\<lambda>j. \<not> disposed (ctxs s ! j) \<and> \<not> isUpdatingFromFile (ctxs s ! j)) js"
proof (induction js arbitrary: s)
  case Nil
  then show ?case by simp
next
  case (Cons j js)
  show ?case
    using Cons.IH[of "run_effect j s"] run_effect_frame[of j s] by simp
qed

lemma trigger_frame:
  "ctxs (trigger s) = ctxs s \<and> test_mode (trigger s) = test_mode s \<and>
   saves (trigger s) = saves s @ live s"
  using fold_run_effect_frame[of "[0..<length (ctxs s)]" s] by (simp add: trigger_def live_def)

lemma fold_run_effect_idle:
  "\<forall>j\<in>set js. disposed (ctxs s ! j) \<or> isUpdatingFromFile (ctxs s ! j) \<Longrightarrow> fold run_effect js s = s"
  by (induction js) (auto simp: run_effect_def)

lemma trigger_idle: "live s = [] \<Longrightarrow> trigger s = s"
  unfolding trigger_def live_def
  by (rule fold_run_effect_idle) (auto simp: filter_empty_conv)



text \<open>Functions that change the target object only.\<close>

lemma target_only_id: "target_only (\<lambda>c. c)"
  by (simp add: target_only_def)

lemma target_onlyD:
  assumes "target_only f"
  obtains m p where "f c = c\<lparr>mirror := m, proto := p\<rparr>"
  using assms unfolding target_only_def by blast

lemma target_onlyI:
  assumes "\<And>c. \<exists>m p. f c = c\<lparr>mirror := m, proto := p\<rparr>"
  shows "target_only f"
  unfolding target_only_def
proof
  fix c
  obtain m p where e: "f c = c\<lparr>mirror := m, proto := p\<rparr>" using assms by blast
  show "f c = c\<lparr>mirror := mirror (f c), proto := proto (f c)\<rparr>"
    by (subst (2 3) e, subst e) simp
qed

lemma target_only_comp: "target_only f \<Longrightarrow> target_only g \<Longrightarrow> target_only (\<lambda>c. f (g c))"
proof (rule target_onlyI)
  fix c
  assume f: "target_only f" and g: "target_only g"
  obtain m p where a: "g c = c\<lparr>mirror := m, proto := p\<rparr>" using g by (rule target_onlyD)
  obtain m' p' where b: "f (g c) = (g c)\<lparr>mirror := m', proto := p'\<rparr>" using f by (rule target_onlyD)
  have "(g c)\<lparr>mirror := m', proto := p'\<rparr> = c\<lparr>mirror := m', proto := p'\<rparr>" by (simp add: a)
  then have "f (g c) = c\<lparr>mirror := m', proto := p'\<rparr>" using b by simp
  then show "\<exists>m p. f (g c) = c\<lparr>mirror := m, proto := p\<rparr>" by blast
qed

lemma target_only_reflect_set: "target_only (reflect_set k v)"
  by (simp add: target_only_def reflect_set_def)

lemma target_only_reflect_delete: "target_only (reflect_delete k)"
  by (simp add: target_only_def reflect_delete_def)

lemma target_only_set_mirror: "target_only (\<lambda>c. c\<lparr>mirror := m\<rparr>)"
  by (simp add: target_only_def)

lemma target_only_fold:
  "(\<And>x. target_only (g x)) \<Longrightarrow> target_only (fold g xs)"
proof (induction xs)
  case Nil
  then show ?case by (simp add: target_only_def)
next
  case (Cons x xs)
  have "target_only (\<lambda>c. fold g xs (g x c))"
    using target_only_comp[OF Cons.IH[OF Cons.prems] Cons.prems[of x]] .
  then show ?case by (simp add: comp_def)
qed

lemma target_only_assign_all: "target_only (assign_all src)"
proof -
  have "target_only (fold (\<lambda>kv. reflect_set (fst kv) (snd kv)) src)"
    by (rule target_only_fold) (rule target_only_reflect_set)
  then show ?thesis by (simp add: assign_all_def case_prod_unfold)
qed

lemma target_only_flags:
  "target_only f \<Longrightarrow>
   disposed (f c) = disposed c \<and> isUpdatingFromFile (f c) = isUpdatingFromFile c \<and>
   initialized (f c) = initialized c \<and> cleanup (f c) = cleanup c \<and>
   lockTimeout (f c) = lockTimeout c \<and> watching (f c) = watching c"
proof -
  assume "target_only f"
  then obtain m p where "f c = c\<lparr>mirror := m, proto := p\<rparr>" by (rule target_onlyD)
  then show ?thesis by simp
qed

lemma assign_all_flags [simp]:
  "disposed (assign_all src c) = disposed c"
  "isUpdatingFromFile (assign_all src c) = isUpdatingFromFile c"
  "initialized (assign_all src c) = initialized c"
  using target_only_flags[OF target_only_assign_all, of src c] by simp_all

lemma upd_ctx_fields [simp]:
  "now (upd_ctx i f s) = now s" "marker (upd_ctx i f s) = marker s"
  "doc (upd_ctx i f s) = doc s" "pending (upd_ctx i f s) = pending s"
  "trace (upd_ctx i f s) = trace s" "warnings (upd_ctx i f s) = warnings s"
  "saves (upd_ctx i f s) = saves s" "test_mode (upd_ctx i f s) = test_mode s"
  "tasks (upd_ctx i f s) = tasks s" "length (ctxs (upd_ctx i f s)) = length (ctxs s)"
  by (simp_all add: upd_ctx_def)

lemma upd_ctx_nth:
  "i < length (ctxs s) \<Longrightarrow> ctxs (upd_ctx i f s) ! i = f (ctxs s ! i)"
  by (simp add: upd_ctx_def)

lemma upd_ctx_nth_other:
  "j \<noteq> i \<Longrightarrow> ctxs (upd_ctx i f s) ! j = ctxs s ! j"
  by (simp add: upd_ctx_def)

lemma upd_ctx_twice: "upd_ctx i f (upd_ctx i g s) = upd_ctx i (\<lambda>c. f (g c)) s"
  by (cases "i < length (ctxs s)") (simp_all add: upd_ctx_def list_update_beyond)

lemma upd_ctx_same: "f (ctxs s ! i) = ctxs s ! i \<Longrightarrow> upd_ctx i f s = s"
  by (simp add: upd_ctx_def)

lemma upd_ctx_cong: "ctxs s = ctxs s' \<Longrightarrow> ctxs (upd_ctx i f s) = ctxs (upd_ctx i f s')"
  by (simp add: upd_ctx_def)

lemma upd_ctx_flags:
  assumes "target_only f" "j < length (ctxs s)"
  shows "disposed (ctxs (upd_ctx i f s) ! j) = disposed (ctxs s ! j) \<and>
         isUpdatingFromFile (ctxs (upd_ctx i f s) ! j) = isUpdatingFromFile (ctxs s ! j) \<and>
         lockTimeout (ctxs (upd_ctx i f s) ! j) = lockTimeout (ctxs s ! j)"
  using assms target_only_flags[OF assms(1), of "ctxs s ! i"]
  by (cases "j = i") (simp_all add: upd_ctx_def)

lemma live_upd_target: "target_only f \<Longrightarrow> live (upd_ctx i f s) = live s"
  unfolding live_def
  by (rule filter_cong) (simp_all add: upd_ctx_flags)

lemma live_cong: "ctxs s = ctxs s' \<Longrightarrow> live s = live s'"
  by (simp add: live_def)

lemma set_target_eq:
  assumes "target_only f"
  shows "upd_ctx i f s = set_target i (mirror (f (ctxs s ! i))) (proto (f (ctxs s ! i))) s"
proof -
  obtain m p where e: "f (ctxs s ! i) = (ctxs s ! i)\<lparr>mirror := m, proto := p\<rparr>"
    using assms by (rule target_onlyD)
  show ?thesis by (simp add: set_target_def upd_ctx_def e)
qed

lemma proxy_set_frame:
  "ctxs (proxy_set i k v s) = ctxs (upd_ctx i (reflect_set k v) s) \<and>
   test_mode (proxy_set i k v s) = test_mode s \<and>
   saves (proxy_set i k v s) = saves s @ live s"
  using trigger_frame[of "upd_ctx i (reflect_set k v) s"]
  by (simp add: proxy_set_def live_upd_target target_only_reflect_set)

lemma proxy_delete_frame:
  "ctxs (proxy_delete i k s) = ctxs (upd_ctx i (reflect_delete k) s) \<and>
   test_mode (proxy_delete i k s) = test_mode s \<and>
   saves (proxy_delete i k s) = saves s @ live s"
  using trigger_frame[of "upd_ctx i (reflect_delete k) s"]
  by (simp add: proxy_delete_def live_upd_target target_only_reflect_delete)

lemma fold_proxy_frame:
  assumes t: "\<And>x. target_only (g x)"
    and p: "\<And>x s. ctxs (h x s) = ctxs (upd_ctx i (g x) s) \<and> test_mode (h x s) = test_mode s \<and>
                   saves (h x s) = saves s @ live s"
  shows "ctxs (fold h xs s) = ctxs (upd_ctx i (fold g xs) s) \<and>
         test_mode (fold h xs s) = test_mode s \<and>
         saves (fold h xs s) = saves s @ concat (replicate (length xs) (live s))"
proof (induction xs arbitrary: s)
  case Nil
  then show ?case by (simp add: upd_ctx_same)
next
  case (Cons x xs)
  let ?s1 = "h x s"
  have c1: "ctxs ?s1 = ctxs (upd_ctx i (g x) s)" and t1: "test_mode ?s1 = test_mode s"
    and v1: "saves ?s1 = saves s @ live s"
    using p[of x s] by simp_all
  have l1: "live ?s1 = live s"
    using live_cong[OF c1] by (simp add: live_upd_target t)
  have "ctxs (upd_ctx i (fold g xs) ?s1) = ctxs (upd_ctx i (\<lambda>c. fold g xs (g x c)) s)"
    using upd_ctx_cong[OF c1, of i "fold g xs"] by (simp add: upd_ctx_twice)
  then show ?case
    using Cons.IH[of ?s1] l1 t1 v1 by (simp add: replicate_app_Cons_same comp_def)
qed

lemma fold_proxy_delete_frame:
  "ctxs (fold (proxy_delete i) ks s) = ctxs (upd_ctx i (fold reflect_delete ks) s) \<and>
   test_mode (fold (proxy_delete i) ks s) = test_mode s \<and>
   saves (fold (proxy_delete i) ks s) = saves s @ concat (replicate (length ks) (live s))"
  by (rule fold_proxy_frame) (simp_all add: target_only_reflect_delete proxy_delete_frame)

lemma fold_proxy_set_frame:
  "ctxs (object_assign i src s) = ctxs (upd_ctx i (assign_all src) s) \<and>
   test_mode (object_assign i src s) = test_mode s \<and>
   saves (object_assign i src s) = saves s @ concat (replicate (length src) (live s))"
proof -
  have "ctxs (fold (\<lambda>kv. proxy_set i (fst kv) (snd kv)) src s) =
          ctxs (upd_ctx i (fold (\<lambda>kv. reflect_set (fst kv) (snd kv)) src) s) \<and>
        test_mode (fold (\<lambda>kv. proxy_set i (fst kv) (snd kv)) src s) = test_mode s \<and>
        saves (fold (\<lambda>kv. proxy_set i (fst kv) (snd kv)) src s) =
          saves s @ concat (replicate (length src) (live s))"
    by (rule fold_proxy_frame) (simp_all add: target_only_reflect_set proxy_set_frame)
  then show ?thesis by (simp add: object_assign_def assign_all_def case_prod_unfold)
qed

text \<open>Deleting and assigning on the target object alone.\<close>

lemma fold_reflect_delete:
  "fold reflect_delete ks c = c\<lparr>mirror := fold AList.delete ks (mirror c)\<rparr>"
  by (induction ks arbitrary: c) (simp_all add: reflect_delete_def)

lemma reflect_set_plain:
  "k \<noteq> ''__proto__'' \<Longrightarrow> reflect_set k v c = c\<lparr>mirror := AList.update k v (mirror c)\<rparr>"
  by (simp add: reflect_set_def calls_setter_def)

lemma assign_all_plain:
  "''__proto__'' \<notin> fst ` set src \<Longrightarrow> assign_all src c = c\<lparr>mirror := assign (mirror c) src\<rparr>"
proof (induction src arbitrary: c)
  case Nil
  then show ?case by (simp add: assign_all_def assign_def)
next
  case (Cons kv src)
  obtain k v where kv: "kv = (k, v)" by (cases kv)
  have k: "k \<noteq> ''__proto__''" and r: "''__proto__'' \<notin> fst ` set src" using Cons.prems kv by auto
  have "assign_all src (reflect_set k v c) =
        (reflect_set k v c)\<lparr>mirror := assign (mirror (reflect_set k v c)) src\<rparr>"
    using Cons.IH[OF r] .
  then show ?case using kv k by (simp add: assign_all_def assign_def reflect_set_plain)
qed

lemma delete_all_keys:
  "fst ` set m \<subseteq> set ks \<Longrightarrow> fold AList.delete ks m = []"
proof (induction ks arbitrary: m)
  case Nil
  then show ?case by simp
next
  case (Cons k ks)
  have "fst ` set (AList.delete k m) \<subseteq> set ks"
    using Cons.prems by (auto simp: AList.delete_eq)
  then show ?case using Cons.IH by simp
qed

lemma update_absent: "k \<notin> fst ` set al \<Longrightarrow> AList.update k v al = al @ [(k, v)]"
  by (induction al) auto

lemma assign_distinct:
  "distinct (map fst (t @ src)) \<Longrightarrow> assign t src = t @ src"
proof (induction src arbitrary: t)
  case Nil
  then show ?case by (simp add: assign_def)
next
  case (Cons kv src)
  obtain k v where kv: "kv = (k, v)" by (cases kv)
  have "k \<notin> fst ` set t" using Cons.prems kv by auto
  then have u: "AList.update k v t = t @ [(k, v)]" by (rule update_absent)
  have "distinct (map fst ((t @ [(k, v)]) @ src))" using Cons.prems kv by simp
  then have "assign (t @ [(k, v)]) src = (t @ [(k, v)]) @ src" by (rule Cons.IH)
  then show ?case using u kv by (simp add: assign_def)
qed

lemma map_of_assign:
  "distinct (map fst src) \<Longrightarrow> map_of (assign t src) = map_of t ++ map_of src"
proof (induction src arbitrary: t)
  case Nil
  then show ?case by (simp add: assign_def)
next
  case (Cons kv src)
  obtain k v where kv: "kv = (k, v)" by (cases kv)
  have d: "distinct (map fst src)" and k: "k \<notin> fst ` set src" using Cons.prems kv by auto
  have "map_of (assign (AList.update k v t) src) = map_of (AList.update k v t) ++ map_of src"
    using Cons.IH[OF d] .
  moreover have "map_of src k = None" using k by (simp add: map_of_eq_None_iff)
  ultimately show ?case
    using kv by (auto simp: assign_def update_conv' map_add_def fun_eq_iff split: option.splits)
qed

lemma keys_update: "fst ` set (AList.update k v al) = insert k (fst ` set al)"
  by (induction al) auto

lemma keys_assign: "fst ` set (assign t src) = fst ` set t \<union> fst ` set src"
proof (induction src arbitrary: t)
  case Nil
  then show ?case by (simp add: assign_def)
next
  case (Cons kv src)
  obtain k v where kv: "kv = (k, v)" by (cases kv)
  have "fst ` set (assign (AList.update k v t) src) = fst ` set (AList.update k v t) \<union> fst ` set src"
    using Cons.IH .
  then show ?case using kv by (simp add: assign_def keys_update)
qed

section \<open>The traps when no effect is live\<close>

lemma set_mirror_fields [simp]:
  "now (set_mirror i m s) = now s" "marker (set_mirror i m s) = marker s"
  "doc (set_mirror i m s) = doc s" "pending (set_mirror i m s) = pending s"
  "trace (set_mirror i m s) = trace s" "warnings (set_mirror i m s) = warnings s"
  "saves (set_mirror i m s) = saves s" "test_mode (set_mirror i m s) = test_mode s"
  "tasks (set_mirror i m s) = tasks s"
  by (simp_all add: set_mirror_def)

lemma set_target_fields [simp]:
  "now (set_target i m p s) = now s" "marker (set_target i m p s) = marker s"
  "doc (set_target i m p s) = doc s" "pending (set_target i m p s) = pending s"
  "trace (set_target i m p s) = trace s" "warnings (set_target i m p s) = warnings s"
  "saves (set_target i m p s) = saves s" "test_mode (set_target i m p s) = test_mode s"
  "tasks (set_target i m p s) = tasks s"
  by (simp_all add: set_target_def)

lemma proxy_set_idle:
  "live s = [] \<Longrightarrow> proxy_set i k v s = upd_ctx i (reflect_set k v) s"
  using trigger_idle[of "upd_ctx i (reflect_set k v) s"]
  by (simp add: proxy_set_def live_upd_target target_only_reflect_set)

lemma proxy_delete_idle:
  "live s = [] \<Longrightarrow> proxy_delete i k s = upd_ctx i (reflect_delete k) s"
  using trigger_idle[of "upd_ctx i (reflect_delete k) s"]
  by (simp add: proxy_delete_def live_upd_target target_only_reflect_delete)

lemma fold_proxy_idle:
  assumes t: "\<And>x. target_only (g x)"
    and p: "\<And>x s. live s = [] \<Longrightarrow> h x s = upd_ctx i (g x) s"
  shows "live s = [] \<Longrightarrow> fold h xs s = upd_ctx i (fold g xs) s"
proof (induction xs arbitrary: s)
  case Nil
  then show ?case by (simp add: upd_ctx_same)
next
  case (Cons x xs)
  have "live (upd_ctx i (g x) s) = []" using Cons.prems by (simp add: live_upd_target t)
  then have "fold h xs (upd_ctx i (g x) s) = upd_ctx i (fold g xs) (upd_ctx i (g x) s)"
    by (rule Cons.IH)
  then show ?case using p[OF Cons.prems, of x] by (simp add: upd_ctx_twice comp_def)
qed

lemma fold_proxy_delete_idle:
  "live s = [] \<Longrightarrow> fold (proxy_delete i) ks s = upd_ctx i (fold reflect_delete ks) s"
  by (rule fold_proxy_idle) (simp_all add: target_only_reflect_delete proxy_delete_idle)

lemma object_assign_idle:
  assumes "live s = []"
  shows "object_assign i src s = upd_ctx i (assign_all src) s"
proof -
  have "fold (\<lambda>kv. proxy_set i (fst kv) (snd kv)) src s =
        upd_ctx i (fold (\<lambda>kv. reflect_set (fst kv) (snd kv)) src) s"
    using assms
    by (rule fold_proxy_idle[rotated 2]) (simp_all add: target_only_reflect_set proxy_set_idle)
  then show ?thesis by (simp add: object_assign_def assign_all_def case_prod_unfold)
qed

text \<open>loadFile only looks and reads.\<close>

lemma existsSync_trace:
  "trace (snd (existsSync p s)) = trace s @ [(Exists, p, fst (existsSync p s))]"
  by (auto simp: existsSync_def env_step_def logged_def Let_def
           split: prod.splits list.splits interference.splits)

lemma readJSON_trace:
  "\<exists>ok. trace (snd (readJSON s)) = trace s @ [(Read, DocPath, ok)]"
  by (auto simp: readJSON_def env_step_def logged_def Let_def
           split: prod.splits list.splits interference.splits file_state.splits)

lemma loadFile_trace:
  "\<exists>xs. trace (snd (loadFile s)) = trace s @ xs \<and> (\<forall>x\<in>set xs. fst x = Exists \<or> fst x = Read)"
proof -
  obtain e s1 where e: "existsSync DocPath s = (e, s1)" by (cases "existsSync DocPath s")
  have t1: "trace s1 = trace s @ [(Exists, DocPath, e)]"
    using existsSync_trace[of DocPath s] e by simp
  obtain r s2 where r: "readJSON s1 = (r, s2)" by (cases "readJSON s1")
  obtain ok where t2: "trace s2 = trace s1 @ [(Read, DocPath, ok)]"
    using readJSON_trace[of s1] r by auto
  show ?thesis
  proof (cases e)
    case False
    then have "snd (loadFile s) = s1" using e by (simp add: loadFile_def)
    then show ?thesis using t1 by simp
  next
    case True
    then have "snd (loadFile s) = s2" using e r by (simp add: loadFile_def split: option.splits)
    then show ?thesis using t1 t2 by simp
  qed
qed

section \<open>The reload\<close>

lemma reflect_set_flag:
  "reflect_set k v (c\<lparr>isUpdatingFromFile := b\<rparr>) = (reflect_set k v c)\<lparr>isUpdatingFromFile := b\<rparr>"
proof -
  have "calls_setter k (c\<lparr>isUpdatingFromFile := b\<rparr>) = calls_setter k c"
    by (simp add: calls_setter_def)
  then show ?thesis by (simp add: reflect_set_def)
qed

lemma assign_all_flag:
  "assign_all src (c\<lparr>isUpdatingFromFile := b\<rparr>) = (assign_all src c)\<lparr>isUpdatingFromFile := b\<rparr>"
proof (induction src arbitrary: c)
  case Nil
  then show ?case by (simp add: assign_all_def)
next
  case (Cons kv src)
  obtain k v where kv: "kv = (k, v)" by (cases kv)
  have "assign_all src ((reflect_set k v c)\<lparr>isUpdatingFromFile := b\<rparr>) =
        (assign_all src (reflect_set k v c))\<lparr>isUpdatingFromFile := b\<rparr>"
    by (rule Cons.IH)
  then show ?case using kv by (simp add: assign_all_def reflect_set_flag)
qed

lemma reload_body_frame:
  assumes i: "i < length (ctxs s)"
  defines "s0 \<equiv> upd_ctx i (\<lambda>c. c\<lparr>isUpdatingFromFile := True\<rparr>) s"
  shows "fst (reload_body i s) = False \<and>
         ctxs (snd (reload_body i s)) =
           ctxs (upd_ctx i (\<lambda>c. assign_all (entries (fst (loadFile s0))) (c\<lparr>mirror := []\<rparr>)) s0) \<and>
         test_mode (snd (reload_body i s)) = test_mode s \<and>
         (\<exists>n. saves (snd (reload_body i s)) = saves s @ concat (replicate n (live s0)))"
proof -
  obtain fd s1 where l: "loadFile s0 = (fd, s1)" by (cases "loadFile s0")
  have sp: "same_process s0 s1" using loadFile_same[of s0] l by simp
  then have c1: "ctxs s1 = ctxs s0" and v1: "saves s1 = saves s0" and t1: "test_mode s1 = test_mode s0"
    by (simp_all add: same_process_def)
  have i1: "i < length (ctxs s1)" using c1 i by (simp add: s0_def)
  let ?ks = "map fst (mirror (ctxs s1 ! i))"
  let ?s2 = "fold (proxy_delete i) ?ks s1"
  have "fold reflect_delete ?ks (ctxs s1 ! i) = (ctxs s1 ! i)\<lparr>mirror := []\<rparr>"
    by (simp add: fold_reflect_delete delete_all_keys)
  then have e: "ctxs (upd_ctx i (fold reflect_delete ?ks) s1) = ctxs (upd_ctx i (\<lambda>c. c\<lparr>mirror := []\<rparr>) s1)"
    by (simp add: upd_ctx_def)
  have d: "ctxs ?s2 = ctxs (upd_ctx i (\<lambda>c. c\<lparr>mirror := []\<rparr>) s1)" "test_mode ?s2 = test_mode s1"
    "saves ?s2 = saves s1 @ concat (replicate (length ?ks) (live s1))"
    using fold_proxy_delete_frame[of i ?ks s1] e by simp_all
  have l1: "live s1 = live s0" using live_cong[OF c1] .
  have l2: "live ?s2 = live s0"
    using live_cong[OF d(1)] l1 by (simp add: live_upd_target target_only_set_mirror)
  let ?s3 = "object_assign i (entries fd) ?s2"
  have a: "ctxs ?s3 = ctxs (upd_ctx i (assign_all (entries fd)) ?s2)" "test_mode ?s3 = test_mode ?s2"
    "saves ?s3 = saves ?s2 @ concat (replicate (length (entries fd)) (live ?s2))"
    using fold_proxy_set_frame[of i "entries fd" ?s2] by simp_all
  have "ctxs (upd_ctx i (assign_all (entries fd)) ?s2) =
        ctxs (upd_ctx i (assign_all (entries fd)) (upd_ctx i (\<lambda>c. c\<lparr>mirror := []\<rparr>) s1))"
    using upd_ctx_cong[OF d(1)] .
  also have "\<dots> = ctxs (upd_ctx i (\<lambda>c. assign_all (entries fd) (c\<lparr>mirror := []\<rparr>)) s1)"
    by (simp add: upd_ctx_twice)
  also have "\<dots> = ctxs (upd_ctx i (\<lambda>c. assign_all (entries fd) (c\<lparr>mirror := []\<rparr>)) s0)"
    using upd_ctx_cong[OF c1] .
  finally have c3: "ctxs ?s3 = ctxs (upd_ctx i (\<lambda>c. assign_all (entries fd) (c\<lparr>mirror := []\<rparr>)) s0)"
    using a(1) by simp
  have "saves ?s3 = saves s @ concat (replicate (length ?ks + length (entries fd)) (live s0))"
    using a(3) d(3) l1 l2 v1 by (simp add: s0_def replicate_add)
  moreover have "test_mode ?s3 = test_mode s" using a(2) d(2) t1 by (simp add: s0_def)
  moreover have "reload_body i s = (False, ?s3)"
    using l by (simp add: reload_body_def s0_def Let_def)
  ultimately show ?thesis using l c3 by auto
qed

lemma live_raised:
  assumes "i < length (ctxs s)"
  shows "i \<notin> set (live (upd_ctx i (\<lambda>c. c\<lparr>isUpdatingFromFile := True\<rparr>) s))"
  using assms by (simp add: live_def upd_ctx_def)

lemma syncFromFile_frame:
  assumes i: "i < length (ctxs s)" and a: "\<not> disposed (ctxs s ! i)" "\<not> isUpdatingFromFile (ctxs s ! i)"
  defines "s0 \<equiv> upd_ctx i (\<lambda>c. c\<lparr>isUpdatingFromFile := True\<rparr>) s"
  shows "ctxs (syncFromFile i s) =
           (ctxs s)[i := assign_all (entries (fst (loadFile s0))) ((ctxs s ! i)\<lparr>mirror := []\<rparr>)] \<and>
         test_mode (syncFromFile i s) = test_mode s \<and> warnings (syncFromFile i s) = warnings (snd (reload_body i s)) \<and>
         (\<exists>xs. saves (syncFromFile i s) = saves s @ xs \<and> i \<notin> set xs)"
proof -
  let ?fd = "fst (loadFile s0)"
  obtain b s3 where r: "reload_body i s = (b, s3)" by (cases "reload_body i s")
  from reload_body_frame[OF i] r obtain n where
    b: "b = False" and c: "ctxs s3 = ctxs (upd_ctx i (\<lambda>c. assign_all (entries ?fd) (c\<lparr>mirror := []\<rparr>)) s0)"
    and t: "test_mode s3 = test_mode s"
    and v: "saves s3 = saves s @ concat (replicate n (live s0))"
    by (auto simp: s0_def)
  have nl: "i \<notin> set (concat (replicate n (live s0)))"
    using live_raised[OF i] by (auto simp: s0_def)
  have e: "syncFromFile i s = upd_ctx i (\<lambda>c. c\<lparr>isUpdatingFromFile := False\<rparr>) s3"
    using a r b by (simp add: syncFromFile_def try_catch_finally_def)
  have "(assign_all (entries ?fd) ((ctxs s ! i)\<lparr>isUpdatingFromFile := True, mirror := []\<rparr>))\<lparr>isUpdatingFromFile := False\<rparr>
        = assign_all (entries ?fd) ((ctxs s ! i)\<lparr>mirror := []\<rparr>)"
  proof -
    let ?y = "(ctxs s ! i)\<lparr>mirror := []\<rparr>"
    have x: "(ctxs s ! i)\<lparr>isUpdatingFromFile := True, mirror := []\<rparr> = ?y\<lparr>isUpdatingFromFile := True\<rparr>"
      by simp
    have 1: "assign_all (entries ?fd) ((ctxs s ! i)\<lparr>isUpdatingFromFile := True, mirror := []\<rparr>) =
             (assign_all (entries ?fd) ?y)\<lparr>isUpdatingFromFile := True\<rparr>"
      unfolding x by (rule assign_all_flag)
    have 2: "(assign_all (entries ?fd) ?y)\<lparr>isUpdatingFromFile := False\<rparr> =
             assign_all (entries ?fd) (?y\<lparr>isUpdatingFromFile := False\<rparr>)"
      by (rule assign_all_flag[symmetric])
    have 3: "?y\<lparr>isUpdatingFromFile := False\<rparr> = ?y" using a(2) by simp
    have "(assign_all (entries ?fd) ((ctxs s ! i)\<lparr>isUpdatingFromFile := True, mirror := []\<rparr>))\<lparr>isUpdatingFromFile := False\<rparr>
          = (assign_all (entries ?fd) ?y)\<lparr>isUpdatingFromFile := False\<rparr>"
      unfolding 1 by simp
    then show ?thesis unfolding 2 3 .
  qed
  then have "ctxs (upd_ctx i (\<lambda>c. c\<lparr>isUpdatingFromFile := False\<rparr>) s3) =
             (ctxs s)[i := assign_all (entries ?fd) ((ctxs s ! i)\<lparr>mirror := []\<rparr>)]"
    using c i by (simp add: upd_ctx_def s0_def)
  then show ?thesis
    using e t v r nl by auto
qed

section \<open>Disposal\<close>

lemma syncFromFile_idle:
  assumes i: "i < length (ctxs s)" and a: "\<not> disposed (ctxs s ! i)" "\<not> isUpdatingFromFile (ctxs s ! i)"
    and o: "\<forall>j<length (ctxs s). j \<noteq> i \<longrightarrow> disposed (ctxs s ! j) \<or> isUpdatingFromFile (ctxs s ! j)"
  defines "s0 \<equiv> upd_ctx i (\<lambda>c. c\<lparr>isUpdatingFromFile := True\<rparr>) s"
  shows "syncFromFile i s =
     upd_ctx i (\<lambda>c. c\<lparr>isUpdatingFromFile := False\<rparr>)
       (upd_ctx i (\<lambda>c. assign_all (entries (fst (loadFile s0))) (c\<lparr>mirror := []\<rparr>)) (snd (loadFile s0)))"
proof -
  obtain fd s1 where l: "loadFile s0 = (fd, s1)" by (cases "loadFile s0")
  have sp: "same_process s0 s1" using loadFile_same[of s0] l by simp
  then have c1: "ctxs s1 = ctxs s0" by (simp add: same_process_def)
  have i1: "i < length (ctxs s1)" using c1 i by (simp add: s0_def)
  have "live s0 = []"
    unfolding live_def filter_empty_conv
  proof
    fix j assume "j \<in> set [0..<length (ctxs s0)]"
    then have j: "j < length (ctxs s)" by (simp add: s0_def)
    show "\<not> (\<not> disposed (ctxs s0 ! j) \<and> \<not> isUpdatingFromFile (ctxs s0 ! j))"
      using o j i by (cases "j = i") (simp_all add: s0_def upd_ctx_def)
  qed
  then have l1: "live s1 = []" using live_cong[OF c1] by simp
  let ?ks = "map fst (mirror (ctxs s1 ! i))"
  have "fold reflect_delete ?ks (ctxs s1 ! i) = (ctxs s1 ! i)\<lparr>mirror := []\<rparr>"
    by (simp add: fold_reflect_delete delete_all_keys)
  then have "upd_ctx i (fold reflect_delete ?ks) s1 = upd_ctx i (\<lambda>c. c\<lparr>mirror := []\<rparr>) s1"
    by (simp add: upd_ctx_def)
  then have d: "fold (proxy_delete i) ?ks s1 = upd_ctx i (\<lambda>c. c\<lparr>mirror := []\<rparr>) s1"
    using fold_proxy_delete_idle[OF l1, of i ?ks] by simp
  have "live (upd_ctx i (\<lambda>c. c\<lparr>mirror := []\<rparr>) s1) = []"
    using l1 by (simp add: live_upd_target target_only_set_mirror)
  then have "object_assign i (entries fd) (upd_ctx i (\<lambda>c. c\<lparr>mirror := []\<rparr>) s1) =
        upd_ctx i (\<lambda>c. assign_all (entries fd) (c\<lparr>mirror := []\<rparr>)) s1"
    using object_assign_idle[of "upd_ctx i (\<lambda>c. c\<lparr>mirror := []\<rparr>) s1" i "entries fd"]
    by (simp add: upd_ctx_twice)
  then have "reload_body i s = (False, upd_ctx i (\<lambda>c. assign_all (entries fd) (c\<lparr>mirror := []\<rparr>)) s1)"
    using l d by (simp add: reload_body_def s0_def Let_def)
  then show ?thesis
    using a l by (simp add: syncFromFile_def try_catch_finally_def)
qed

lemma deliver_disposed:
  assumes "i < length (ctxs s)" "disposed (ctxs s ! i)"
  shows "length (ctxs (deliver i sg s)) = length (ctxs s) \<and>
         (\<forall>j<length (ctxs s). disposed (ctxs (deliver i sg s) ! j) = disposed (ctxs s ! j)) \<and>
         (\<exists>xs. saves (deliver i sg s) = saves s @ xs \<and> i \<notin> set xs)"
proof -
  have nl: "i \<notin> set (live s)" using assms by (simp add: live_def)
  show ?thesis
  proof (cases sg)
    case (SetKey k v)
    then show ?thesis
      using proxy_set_frame[of i k v s] nl
        upd_ctx_flags[OF target_only_reflect_set[of k v], where s = s and i = i]
      by auto
  next
    case (DeleteKey k)
    then show ?thesis
      using proxy_delete_frame[of i k s] nl
        upd_ctx_flags[OF target_only_reflect_delete[of k], where s = s and i = i]
      by auto
  next
    case FileNotify
    then show ?thesis using assms by (simp add: syncFromFile_def)
  qed
qed

lemma deliver_all_disposed:
  assumes "i < length (ctxs s)" "disposed (ctxs s ! i)"
  shows "length (ctxs (fold (deliver i) sigs s)) = length (ctxs s) \<and>
         (\<forall>j<length (ctxs s). disposed (ctxs (fold (deliver i) sigs s) ! j) = disposed (ctxs s ! j)) \<and>
         (\<exists>xs. saves (fold (deliver i) sigs s) = saves s @ xs \<and> i \<notin> set xs)"
  using assms
proof (induction sigs arbitrary: s)
  case Nil
  then show ?case by simp
next
  case (Cons sg sigs)
  let ?s1 = "deliver i sg s"
  from deliver_disposed[OF Cons.prems, of sg] obtain xs where
    l: "length (ctxs ?s1) = length (ctxs s)"
    and d: "\<forall>j<length (ctxs s). disposed (ctxs ?s1 ! j) = disposed (ctxs s ! j)"
    and v: "saves ?s1 = saves s @ xs" "i \<notin> set xs" by auto
  have p: "i < length (ctxs ?s1)" "disposed (ctxs ?s1 ! i)"
    using l d Cons.prems by auto
  from Cons.IH[OF p] obtain ys where
    l2: "length (ctxs (fold (deliver i) sigs ?s1)) = length (ctxs ?s1)"
    and d2: "\<forall>j<length (ctxs ?s1). disposed (ctxs (fold (deliver i) sigs ?s1) ! j) = disposed (ctxs ?s1 ! j)"
    and v2: "saves (fold (deliver i) sigs ?s1) = saves ?s1 @ ys" "i \<notin> set ys" by auto
  have "saves (fold (deliver i) sigs ?s1) = saves s @ (xs @ ys)" "i \<notin> set (xs @ ys)"
    using v v2 by simp_all
  then show ?case using l l2 d d2 by (simp del: append_assoc)
qed

lemma all_disposed_live: "\<forall>j<length (ctxs s). disposed (ctxs s ! j) \<Longrightarrow> live s = []"
  by (simp add: live_def filter_empty_conv)

lemma all_disposed_upd:
  assumes "target_only f" "\<forall>j<length (ctxs s). disposed (ctxs s ! j)"
  shows "\<forall>j<length (ctxs (upd_ctx i f s)). disposed (ctxs (upd_ctx i f s) ! j)"
  using assms upd_ctx_flags[OF assms(1), of _ s i] by simp

lemma deliver_idle:
  assumes "i < length (ctxs s)" "\<forall>j<length (ctxs s). disposed (ctxs s ! j)"
  shows "\<exists>f. target_only f \<and> deliver i sg s = upd_ctx i f s"
proof -
  have lv: "live s = []" using assms(2) by (rule all_disposed_live)
  show ?thesis
  proof (cases sg)
    case (SetKey k v)
    have "deliver i sg s = upd_ctx i (reflect_set k v) s"
      using SetKey proxy_set_idle[OF lv] by simp
    then show ?thesis using target_only_reflect_set[of k v] by blast
  next
    case (DeleteKey k)
    have "deliver i sg s = upd_ctx i (reflect_delete k) s"
      using DeleteKey proxy_delete_idle[OF lv] by simp
    then show ?thesis using target_only_reflect_delete[of k] by blast
  next
    case FileNotify
    have "deliver i sg s = upd_ctx i (\<lambda>c. c) s"
      using FileNotify assms by (simp add: syncFromFile_def upd_ctx_same)
    then show ?thesis using target_only_id by blast
  qed
qed

lemma deliver_all_idle_fun:
  assumes "i < length (ctxs s)" "\<forall>j<length (ctxs s). disposed (ctxs s ! j)"
  shows "\<exists>f. target_only f \<and> fold (deliver i) sigs s = upd_ctx i f s"
  using assms
proof (induction sigs arbitrary: s)
  case Nil
  have "fold (deliver i) [] s = upd_ctx i (\<lambda>c. c) s" by (simp add: upd_ctx_same)
  then show ?case using target_only_id by blast
next
  case (Cons sg sigs)
  obtain f where f: "target_only f" "deliver i sg s = upd_ctx i f s"
    using deliver_idle[OF Cons.prems] by blast
  have "i < length (ctxs (upd_ctx i f s))" using Cons.prems(1) by simp
  moreover have "\<forall>j<length (ctxs (upd_ctx i f s)). disposed (ctxs (upd_ctx i f s) ! j)"
    using all_disposed_upd[OF f(1) Cons.prems(2)] .
  ultimately obtain g where g: "target_only g"
    "fold (deliver i) sigs (upd_ctx i f s) = upd_ctx i g (upd_ctx i f s)"
    using Cons.IH by blast
  have "fold (deliver i) (sg # sigs) s = upd_ctx i (\<lambda>c. g (f c)) s"
    using f(2) g(2) by (simp add: upd_ctx_twice)
  then show ?case using target_only_comp[OF g(1) f(1)] by blast
qed

lemma deliver_all_idle:
  assumes "i < length (ctxs s)" "\<forall>j<length (ctxs s). disposed (ctxs s ! j)"
  shows "\<exists>m p. fold (deliver i) sigs s = set_target i m p s"
proof -
  obtain f where "target_only f" "fold (deliver i) sigs s = upd_ctx i f s"
    using deliver_all_idle_fun[OF assms] by blast
  then show ?thesis using set_target_eq[of f i s] by auto
qed

text \<open>
  With every context disposed and no persist in flight, an event leaves the files, the logs
  and the persists as they are.
\<close>

lemma task_step_settled: "t_stage t = Settled \<Longrightarrow> task_step t s = (t, s)"
  by (simp add: task_step_def)

lemma occur_at_rest:
  assumes d: "\<forall>j<length (ctxs s). disposed (ctxs s ! j)" and r: "settled s"
  shows "(\<forall>j<length (ctxs (occur e s)). disposed (ctxs (occur e s) ! j)) \<and> settled (occur e s) \<and>
         doc (occur e s) = doc s \<and> marker (occur e s) = marker s \<and> trace (occur e s) = trace s \<and>
         saves (occur e s) = saves s \<and> warnings (occur e s) = warnings s \<and>
         tasks (occur e s) = tasks s"
proof (cases e)
  case (Signal j sg)
  show ?thesis
  proof (cases "j < length (ctxs s)")
    case False
    then show ?thesis using Signal d r by simp
  next
    case True
    obtain f where f: "target_only f" "deliver j sg s = upd_ctx j f s"
      using deliver_idle[OF True d] by blast
    have "occur e s = upd_ctx j f s" using Signal True f(2) by simp
    then show ?thesis using all_disposed_upd[OF f(1) d, of j] r by (simp add: settled_def)
  qed
next
  case (Resume n)
  show ?thesis
  proof (cases "n < length (tasks s)")
    case False
    then show ?thesis using Resume d r by simp
  next
    case True
    then have "t_stage (tasks s ! n) = Settled" using r by (simp add: settled_def)
    then have "occur e s = s" using Resume True by (simp add: task_step_settled)
    then show ?thesis using d r by simp
  qed
next
  case (Elapse x)
  then show ?thesis using d r by (simp add: settled_def)
qed

lemma occur_all_at_rest:
  assumes "\<forall>j<length (ctxs s). disposed (ctxs s ! j)" "settled s"
  shows "(\<forall>j<length (ctxs (fold occur evs s)). disposed (ctxs (fold occur evs s) ! j)) \<and>
         settled (fold occur evs s) \<and>
         doc (fold occur evs s) = doc s \<and> marker (fold occur evs s) = marker s \<and>
         trace (fold occur evs s) = trace s \<and> saves (fold occur evs s) = saves s \<and>
         warnings (fold occur evs s) = warnings s \<and> tasks (fold occur evs s) = tasks s"
  using assms
proof (induction evs arbitrary: s)
  case Nil
  then show ?case by simp
next
  case (Cons e evs)
  note o = occur_at_rest[OF Cons.prems, of e]
  have "\<forall>j<length (ctxs (occur e s)). disposed (ctxs (occur e s) ! j)" "settled (occur e s)"
    using o by blast+
  from Cons.IH[OF this] show ?case using o by simp
qed

lemma cleanup_files_same: "same_process s (cleanup_files s)"
proof -
  obtain e1 s1 where e1: "existsSync DocPath s = (e1, s1)" by (cases "existsSync DocPath s")
  have a: "same_process s s1" using existsSync_same[of s DocPath] e1 by simp
  obtain r s2 where r: "removeSync DocPath s1 = (r, s2)" by (cases "removeSync DocPath s1")
  have b: "same_process s s2" using a removeSync_same[of s1 DocPath] r by (auto intro: same_process_trans)
  have c: "\<And>s'. same_process s s' \<Longrightarrow> same_process s (snd (existsSync LockPath s'))"
    using existsSync_same by (blast intro: same_process_trans)
  have d: "\<And>s'. same_process s s' \<Longrightarrow>
      same_process s (snd (removeSync LockPath (snd (existsSync LockPath s'))))"
    using c removeSync_same by (blast intro: same_process_trans)
  show ?thesis
    using e1 r a b c[OF a] c[OF b] d[OF a] d[OF b]
    by (auto simp: cleanup_files_def split: prod.splits bool.splits if_splits)
qed

lemma dispose_flags:
  assumes "i < length (ctxs s)"
  shows "disposed (ctxs (dispose i s) ! i) \<and> \<not> watching (ctxs (dispose i s) ! i) \<and>
         length (ctxs (dispose i s)) = length (ctxs s) \<and>
         (\<forall>j<length (ctxs s). disposed (ctxs s ! j) \<longrightarrow> disposed (ctxs (dispose i s) ! j))"
proof -
  let ?s1 = "upd_ctx i (\<lambda>c. c\<lparr>disposed := True, watching := False\<rparr>) s"
  have "ctxs (cleanup_files ?s1) = ctxs ?s1"
    using cleanup_files_same[of ?s1] by (simp add: same_process_def)
  then have "ctxs (dispose i s) = ctxs ?s1" by (simp add: dispose_def Let_def)
  then show ?thesis using assms by (auto simp: upd_ctx_def nth_list_update)
qed

lemma dispose_tasks: "tasks (dispose i s) = tasks s"
  using cleanup_files_same[of "upd_ctx i (\<lambda>c. c\<lparr>disposed := True, watching := False\<rparr>) s"]
  by (simp add: dispose_def Let_def same_process_def)

lemma cleanup_files_quiet:
  "pending s = [] \<Longrightarrow> doc (cleanup_files s) = Missing \<and> marker (cleanup_files s) = None"
  by (auto simp: cleanup_files_def existsSync_def removeSync_def env_step_idle logged_def Let_def
           split: prod.splits bool.splits)

lemma dispose_quiet:
  "cleanup (ctxs s ! i) \<noteq> Some False \<Longrightarrow> pending s = [] \<Longrightarrow>
   doc (dispose i s) = Missing \<and> marker (dispose i s) = None"
  using cleanup_files_quiet[of "upd_ctx i (\<lambda>c. c\<lparr>disposed := True, watching := False\<rparr>) s"]
  by (simp add: dispose_def Let_def upd_ctx_def)

section \<open>What acquire does to the files\<close>

lemma acquire_loop_rel:
  assumes refl: "\<And>s. R s s" and trans: "\<And>a b c. R a b \<Longrightarrow> R b c \<Longrightarrow> R a c"
    and wx: "\<And>s. R s (snd (writeFile_wx s))" and st: "\<And>s. R s (snd (stat_mtime s))"
    and un: "\<And>s. R s (snd (unlink s))" and sl: "\<And>s. R s (sleep 10 s)"
  shows "R s (snd (acquire_loop t start s))"
proof (induction t start s rule: acquire_loop.induct)
  case (1 timeout start s)
  show ?case
  proof (cases "now s - start < timeout")
    case False
    then show ?thesis by (subst acquire_loop.simps) (simp add: refl)
  next
    case True
    obtain r s1 where w: "writeFile_wx s = (r, s1)" by (cases "writeFile_wx s")
    have a: "R s s1" using wx[of s] w by simp
    show ?thesis
    proof (cases r)
      case Created
      then show ?thesis using True w a by (subst acquire_loop.simps) simp
    next
      case IOError
      then show ?thesis using True w a by (subst acquire_loop.simps) simp
    next
      case EEXIST
      obtain q s2 where q: "stat_mtime s1 = (q, s2)" by (cases "stat_mtime s1")
      have b: "R s s2" using a st[of s1] q by (auto intro: trans)
      show ?thesis
      proof (cases q)
        case None
        have "R s2 (snd (acquire_loop timeout start s2))"
          using "1.IH"(1)[OF True w[symmetric] EEXIST q[symmetric] None] .
        then have "R s (snd (acquire_loop timeout start s2))" using b by (blast intro: trans)
        then show ?thesis
          using True w EEXIST q None by (subst acquire_loop.simps) simp
      next
        case (Some m)
        show ?thesis
        proof (cases "timeout * 2 < now s2 - m")
          case stale: True
          have "R (snd (unlink s2)) (snd (acquire_loop timeout start (snd (unlink s2))))"
            using "1.IH"(2)[OF True w[symmetric] EEXIST q[symmetric] Some stale] .
          then have "R s (snd (acquire_loop timeout start (snd (unlink s2))))"
            using b un[of s2] by (blast intro: trans)
          then show ?thesis
            using True w EEXIST q Some stale by (subst acquire_loop.simps) simp
        next
          case fresh: False
          have "R (sleep 10 s2) (snd (acquire_loop timeout start (sleep 10 s2)))"
            using "1.IH"(3)[OF True w[symmetric] EEXIST q[symmetric] Some fresh] .
          then have "R s (snd (acquire_loop timeout start (sleep 10 s2)))"
            using b sl[of s2] by (blast intro: trans)
          then show ?thesis
            using True w EEXIST q Some fresh by (subst acquire_loop.simps) simp
        qed
      qed
    qed
  qed
qed

lemma acquire_loop_post:
  assumes won: "\<And>s s1. writeFile_wx s = (Created, s1) \<Longrightarrow> Q s1"
  shows "fst (acquire_loop t start s) = Returned True \<longrightarrow> Q (snd (acquire_loop t start s))"
proof (induction t start s rule: acquire_loop.induct)
  case (1 timeout start s)
  show ?case
  proof (cases "now s - start < timeout")
    case False
    then show ?thesis by (subst (1 2) acquire_loop.simps) simp
  next
    case True
    obtain r s1 where w: "writeFile_wx s = (r, s1)" by (cases "writeFile_wx s")
    show ?thesis
    proof (cases r)
      case Created
      then show ?thesis using True w won[of s s1] by (subst (1 2) acquire_loop.simps) simp
    next
      case IOError
      then show ?thesis using True w by (subst (1 2) acquire_loop.simps) simp
    next
      case EEXIST
      obtain q s2 where q: "stat_mtime s1 = (q, s2)" by (cases "stat_mtime s1")
      show ?thesis
      proof (cases q)
        case None
        show ?thesis
          using "1.IH"(1)[OF True w[symmetric] EEXIST q[symmetric] None] True w EEXIST q None
          by (subst (1 2) acquire_loop.simps) simp
      next
        case (Some m)
        show ?thesis
        proof (cases "timeout * 2 < now s2 - m")
          case stale: True
          show ?thesis
            using "1.IH"(2)[OF True w[symmetric] EEXIST q[symmetric] Some stale] True w EEXIST q Some stale
            by (subst (1 2) acquire_loop.simps) simp
        next
          case fresh: False
          show ?thesis
            using "1.IH"(3)[OF True w[symmetric] EEXIST q[symmetric] Some fresh] True w EEXIST q Some fresh
            by (subst (1 2) acquire_loop.simps) simp
        qed
      qed
    qed
  qed
qed

text \<open>The calls on the lock file only.\<close>

lemma env_step_trace: "trace (snd (env_step s)) = trace s"
  by (auto simp: env_step_def Let_def split: list.splits interference.splits)

lemma lock_calls_refl: "lock_calls s s"
  by (simp add: lock_calls_def)

lemma lock_calls_trans: "lock_calls a b \<Longrightarrow> lock_calls b c \<Longrightarrow> lock_calls a c"
  unfolding lock_calls_def
proof -
  assume "\<exists>xs. trace b = trace a @ xs \<and> (\<forall>x\<in>set xs. fst (snd x) = LockPath)"
     and "\<exists>ys. trace c = trace b @ ys \<and> (\<forall>x\<in>set ys. fst (snd x) = LockPath)"
  then obtain xs ys where "trace b = trace a @ xs" "\<forall>x\<in>set xs. fst (snd x) = LockPath"
     "trace c = trace b @ ys" "\<forall>x\<in>set ys. fst (snd x) = LockPath" by blast
  then have "trace c = trace a @ (xs @ ys) \<and> (\<forall>x\<in>set (xs @ ys). fst (snd x) = LockPath)" by auto
  then show "\<exists>xs. trace c = trace a @ xs \<and> (\<forall>x\<in>set xs. fst (snd x) = LockPath)" by blast
qed

lemma lock_calls_wx: "lock_calls s (snd (writeFile_wx s))"
  using env_step_trace[of s]
  by (auto simp: lock_calls_def writeFile_wx_def logged_def split: prod.splits bool.splits option.splits)

lemma lock_calls_stat: "lock_calls s (snd (stat_mtime s))"
  using env_step_trace[of s]
  by (auto simp: lock_calls_def stat_mtime_def logged_def split: prod.splits bool.splits option.splits)

lemma lock_calls_unlink: "lock_calls s (snd (unlink s))"
  using env_step_trace[of s]
  by (auto simp: lock_calls_def unlink_def logged_def split: prod.splits bool.splits option.splits)

lemma lock_calls_sleep: "lock_calls s (sleep 10 s)"
  by (simp add: lock_calls_def sleep_def)

lemma acquire_lock_calls: "lock_calls s (snd (acquire t s))"
  unfolding acquire_def
proof (rule acquire_loop_rel[where R = lock_calls])
  show "\<And>s. lock_calls s s" by (rule lock_calls_refl)
  show "\<And>a b c. lock_calls a b \<Longrightarrow> lock_calls b c \<Longrightarrow> lock_calls a c"
    by (rule lock_calls_trans)
  show "\<And>s. lock_calls s (snd (writeFile_wx s))" by (rule lock_calls_wx)
  show "\<And>s. lock_calls s (snd (stat_mtime s))" by (rule lock_calls_stat)
  show "\<And>s. lock_calls s (snd (unlink s))" by (rule lock_calls_unlink)
  show "\<And>s. lock_calls s (sleep 10 s)" by (rule lock_calls_sleep)
qed

lemma wx_created:
  "writeFile_wx s = (Created, s1) \<Longrightarrow>
     marker s1 = Some (now s1) \<and> (\<exists>xs. trace s1 = xs @ [(WriteExcl, LockPath, True)])"
  by (auto simp: writeFile_wx_def logged_def split: prod.splits bool.splits option.splits)

lemma acquire_held:
  "acquire t s = (Returned True, s1) \<Longrightarrow>
     marker s1 = Some (now s1) \<and> (\<exists>xs. trace s1 = xs @ [(WriteExcl, LockPath, True)])"
  using acquire_loop_post[where Q = "\<lambda>s1. marker s1 = Some (now s1) \<and>
            (\<exists>xs. trace s1 = xs @ [(WriteExcl, LockPath, True)])" and t = t and start = "now s" and s = s]
        wx_created
  by (simp add: acquire_def)

section \<open>The persist\<close>

lemma ensureFile_trace:
  "ensureFile s = (e, s1) \<Longrightarrow> trace s1 = trace s @ [(Ensure, DocPath, e)]"
  using env_step_trace[of s]
  by (auto simp: ensureFile_def logged_def split: prod.splits bool.splits)

lemma writeJSON_trace:
  "writeJSON d s = (w, s1) \<Longrightarrow> trace s1 = trace s @ [(Write, DocPath, w)]"
  using env_step_trace[of s]
  by (auto simp: writeJSON_def logged_def split: prod.splits bool.splits)

lemma release_trace:
  "\<exists>u. trace (snd (release s)) = trace s @ [(Unlink, LockPath, u)]"
  using env_step_trace[of s]
  by (auto simp: release_def unlink_def logged_def split: prod.splits bool.splits option.splits)

lemma performSave_held:
  assumes a: "acquire (lock_timeout (ctxs s ! i)) s = (Returned True, s1)"
  shows "\<exists>e w u. trace (snd (performSave i s)) =
           trace s1 @ (Ensure, DocPath, e) # (if e then [(Write, DocPath, w)] else []) @ [(Unlink, LockPath, u)]"
proof -
  obtain e s2 where e: "ensureFile s1 = (e, s2)" by (cases "ensureFile s1")
  have t2: "trace s2 = trace s1 @ [(Ensure, DocPath, e)]" using ensureFile_trace[OF e] .
  show ?thesis
  proof (cases e)
    case False
    obtain u where "trace (snd (release s2)) = trace s2 @ [(Unlink, LockPath, u)]"
      using release_trace[of s2] by blast
    moreover have "snd (performSave i s) = snd (release s2)"
      using a e False by (simp add: performSave_def)
    ultimately show ?thesis using t2 False by auto
  next
    case True
    obtain w s3 where w: "writeJSON (mirror (ctxs s2 ! i)) s2 = (w, s3)"
      by (cases "writeJSON (mirror (ctxs s2 ! i)) s2")
    have t3: "trace s3 = trace s2 @ [(Write, DocPath, w)]" using writeJSON_trace[OF w] .
    obtain u where "trace (snd (release s3)) = trace s3 @ [(Unlink, LockPath, u)]"
      using release_trace[of s3] by blast
    moreover have "snd (performSave i s) = snd (release s3)"
      using a e w True by (cases w) (simp_all add: performSave_def)
    ultimately show ?thesis using t2 t3 True by auto
  qed
qed

lemma warn_trace [simp]: "trace (warn m s) = trace s"
  by (simp add: warn_def)

lemma save_alone_after:
  "save_alone i s = after_acquire i (acquire (lock_timeout (ctxs s ! i)) s)"
  by (auto simp: save_alone_def performSave_def after_acquire_def
           split: prod.splits lock_outcome.splits bool.splits)

lemma save_alone_held:
  assumes a: "acquire (lock_timeout (ctxs s ! i)) s = (Returned True, s1)"
  shows "\<exists>e w u. trace (save_alone i s) =
           trace s1 @ (Ensure, DocPath, e) # (if e then [(Write, DocPath, w)] else []) @ [(Unlink, LockPath, u)]"
proof -
  have "trace (save_alone i s) = trace (snd (performSave i s))"
    by (simp add: save_alone_def split: prod.splits bool.splits)
  then show ?thesis using performSave_held[OF a] by simp
qed

lemma save_alone_held_quiet:
  assumes a: "acquire (lock_timeout (ctxs s ! i)) s = (Returned True, s1)"
    and q: "pending s1 = []"
  shows "save_alone i s =
           s1\<lparr>doc := Parsed (JObj (mirror (ctxs s ! i))), marker := None,
              trace := trace s1 @ [(Ensure, DocPath, True), (Write, DocPath, True), (Unlink, LockPath, True)]\<rparr>"
proof -
  have c: "ctxs s1 = ctxs s" using acquire_same[of s "lock_timeout (ctxs s ! i)"] a
    by (simp add: same_process_def)
  have m: "marker s1 = Some (now s1)" using acquire_held[OF a] by simp
  have "performSave i s =
          (True, s1\<lparr>doc := Parsed (JObj (mirror (ctxs s ! i))), marker := None,
              trace := trace s1 @ [(Ensure, DocPath, True), (Write, DocPath, True), (Unlink, LockPath, True)]\<rparr>)"
    using a q c m
    by (simp add: performSave_def ensureFile_def writeJSON_def release_def unlink_def
          env_step_def logged_def)
  then show ?thesis by (simp add: save_alone_def)
qed

lemma save_alone_held_write_fault:
  assumes a: "acquire (lock_timeout (ctxs s ! i)) s = (Returned True, s1)"
    and q: "pending s1 = (d1, Quiet) # (d2, Fault) # (d3, Quiet) # rest"
  shows "save_alone i s =
           warn SaveFailed
             (s1\<lparr>now := now s1 + int d1 + int d2 + int d3, pending := rest,
                 doc := (if doc s1 = Missing then Unparsable else doc s1), marker := None,
                 trace := trace s1 @ [(Ensure, DocPath, True), (Write, DocPath, False),
                                      (Unlink, LockPath, True)]\<rparr>)"
proof -
  have m: "marker s1 = Some (now s1)" using acquire_held[OF a] by simp
  have "performSave i s =
          (False, s1\<lparr>now := now s1 + int d1 + int d2 + int d3, pending := rest,
                 doc := (if doc s1 = Missing then Unparsable else doc s1), marker := None,
                 trace := trace s1 @ [(Ensure, DocPath, True), (Write, DocPath, False),
                                      (Unlink, LockPath, True)]\<rparr>)"
    using a q m
    by (simp add: performSave_def ensureFile_def writeJSON_def release_def unlink_def
          env_step_def logged_def)
  then show ?thesis by (simp add: save_alone_def)
qed

lemma save_alone_not_acquired:
  assumes a: "acquire (lock_timeout (ctxs s ! i)) s = (r, s1)"
  shows "(r = Returned False \<longrightarrow> save_alone i s = warn LockNotAcquired s1) \<and>
         (r = Threw \<longrightarrow> save_alone i s = warn SaveFailed s1)"
  using assms by (auto simp: save_alone_def performSave_def)

section \<open>The persists that the traps start\<close>

lemma spawns_refl [simp]: "spawns s s"
  by (simp add: spawns_def)

lemma spawns_trans: "spawns a b \<Longrightarrow> spawns b c \<Longrightarrow> spawns a c"
proof -
  assume "spawns a b" "spawns b c"
  then obtain xs ys where x: "tasks b = tasks a @ xs"
      "\<forall>t\<in>set xs. t_log t = [] \<and> (t_stage t = CreateIssued \<or> t_stage t = Refused)"
    and y: "tasks c = tasks b @ ys"
      "\<forall>t\<in>set ys. t_log t = [] \<and> (t_stage t = CreateIssued \<or> t_stage t = Refused)"
    unfolding spawns_def by blast
  have "tasks c = tasks a @ (xs @ ys)" using x(1) y(1) by simp
  moreover have "\<forall>t\<in>set (xs @ ys). t_log t = [] \<and> (t_stage t = CreateIssued \<or> t_stage t = Refused)"
    using x(2) y(2) by auto
  ultimately show ?thesis unfolding spawns_def by blast
qed

lemma spawns_same: "tasks s' = tasks s \<Longrightarrow> spawns s s'"
  by (simp add: spawns_def)

lemma spawns_saveFile: "spawns s (saveFile i s)"
proof (cases "test_mode s")
  case True
  have "tasks (performSyncSave i (s\<lparr>saves := saves s @ [i]\<rparr>)) = tasks s"
    using performSyncSave_same[of "s\<lparr>saves := saves s @ [i]\<rparr>" i] by (simp add: same_ctxs_def)
  then show ?thesis using True by (simp add: saveFile_test spawns_same)
next
  case False
  then show ?thesis by (simp add: saveFile_production start_save_def spawns_def)
qed

lemma spawns_run_effect: "spawns s (run_effect i s)"
  by (simp add: run_effect_def spawns_saveFile)

lemma spawns_fold:
  assumes "\<And>x s. spawns s (h x s)"
  shows "spawns s (fold h xs s)"
proof (induction xs arbitrary: s)
  case Nil
  then show ?case by simp
next
  case (Cons x xs)
  show ?case using spawns_trans[OF assms[of s x] Cons.IH[of "h x s"]] by simp
qed

lemma spawns_trigger: "spawns s (trigger s)"
  unfolding trigger_def by (rule spawns_fold) (rule spawns_run_effect)

lemma spawns_proxy_set: "spawns s (proxy_set i k v s)"
  using spawns_trans[OF spawns_same spawns_trigger, of "upd_ctx i (reflect_set k v) s" s]
  by (simp add: proxy_set_def)

lemma spawns_proxy_delete: "spawns s (proxy_delete i k s)"
  using spawns_trans[OF spawns_same spawns_trigger, of "upd_ctx i (reflect_delete k) s" s]
  by (simp add: proxy_delete_def)

lemma spawns_object_assign: "spawns s (object_assign i src s)"
  unfolding object_assign_def by (rule spawns_fold) (auto simp: spawns_proxy_set)

lemma spawns_syncFromFile: "spawns s (syncFromFile i s)"
proof (cases "disposed (ctxs s ! i) \<or> isUpdatingFromFile (ctxs s ! i)")
  case True
  then show ?thesis by (simp add: syncFromFile_def)
next
  case False
  let ?s0 = "upd_ctx i (\<lambda>c. c\<lparr>isUpdatingFromFile := True\<rparr>) s"
  obtain fd s1 where l: "loadFile ?s0 = (fd, s1)" by (cases "loadFile ?s0")
  have "tasks s1 = tasks s" using loadFile_same[of ?s0] l by (simp add: same_process_def)
  then have a: "spawns s s1" by (rule spawns_same)
  let ?s2 = "fold (proxy_delete i) (map fst (mirror (ctxs s1 ! i))) s1"
  have b: "spawns s1 ?s2" by (rule spawns_fold) (rule spawns_proxy_delete)
  have c: "spawns ?s2 (object_assign i (entries fd) ?s2)" by (rule spawns_object_assign)
  have "spawns s (object_assign i (entries fd) ?s2)"
    using spawns_trans[OF a spawns_trans[OF b c]] .
  moreover have "tasks (syncFromFile i s) = tasks (object_assign i (entries fd) ?s2)"
    using False l by (simp add: syncFromFile_def try_catch_finally_def reload_body_def Let_def)
  ultimately show ?thesis by (simp add: spawns_def)
qed

lemma spawns_deliver: "spawns s (deliver i sg s)"
  by (cases sg) (simp_all add: spawns_proxy_set spawns_proxy_delete spawns_syncFromFile)

section \<open>Persists in flight\<close>

text \<open>The file-system calls do not look at the persists.\<close>

lemma env_step_tasks:
  "env_step (s\<lparr>tasks := X\<rparr>) = (fst (env_step s), (snd (env_step s))\<lparr>tasks := X\<rparr>)"
  by (auto simp: env_step_def Let_def split: list.splits interference.splits)

lemma writeFile_wx_tasks:
  "writeFile_wx (s\<lparr>tasks := X\<rparr>) = (fst (writeFile_wx s), (snd (writeFile_wx s))\<lparr>tasks := X\<rparr>)"
  by (auto simp: writeFile_wx_def env_step_tasks logged_def split: prod.splits bool.splits option.splits)

lemma stat_mtime_tasks:
  "stat_mtime (s\<lparr>tasks := X\<rparr>) = (fst (stat_mtime s), (snd (stat_mtime s))\<lparr>tasks := X\<rparr>)"
  by (auto simp: stat_mtime_def env_step_tasks logged_def split: prod.splits bool.splits option.splits)

lemma unlink_tasks:
  "unlink (s\<lparr>tasks := X\<rparr>) = (fst (unlink s), (snd (unlink s))\<lparr>tasks := X\<rparr>)"
  by (auto simp: unlink_def env_step_tasks logged_def split: prod.splits bool.splits option.splits)

lemma release_tasks:
  "release (s\<lparr>tasks := X\<rparr>) = (fst (release s), (snd (release s))\<lparr>tasks := X\<rparr>)"
  by (auto simp: release_def unlink_tasks split: prod.splits unlink_result.splits)

lemma ensureFile_tasks:
  "ensureFile (s\<lparr>tasks := X\<rparr>) = (fst (ensureFile s), (snd (ensureFile s))\<lparr>tasks := X\<rparr>)"
  by (auto simp: ensureFile_def env_step_tasks logged_def split: prod.splits bool.splits)

lemma writeJSON_tasks:
  "writeJSON d (s\<lparr>tasks := X\<rparr>) = (fst (writeJSON d s), (snd (writeJSON d s))\<lparr>tasks := X\<rparr>)"
  by (auto simp: writeJSON_def env_step_tasks logged_def split: prod.splits bool.splits)

lemma warn_tasks: "warn m (s\<lparr>tasks := X\<rparr>) = (warn m s)\<lparr>tasks := X\<rparr>"
  by (simp add: warn_def)

lemma sleep_tasks: "(sleep ms s)\<lparr>tasks := X\<rparr> = (s\<lparr>tasks := X\<rparr>)\<lparr>now := now s + ms\<rparr>"
  by (simp add: sleep_def)

text \<open>What each call adds to the log.\<close>

lemma writeFile_wx_trace:
  "writeFile_wx s = (r, s1) \<Longrightarrow> trace s1 = trace s @ [(WriteExcl, LockPath, r = Created)]"
  using env_step_trace[of s]
  by (auto simp: writeFile_wx_def logged_def split: prod.splits bool.splits option.splits)

lemma stat_mtime_trace:
  "stat_mtime s = (r, s1) \<Longrightarrow> trace s1 = trace s @ [(Stat, LockPath, r \<noteq> None)]"
proof -
  assume a: "stat_mtime s = (r, s1)"
  obtain f s0 where e: "env_step s = (f, s0)" by (cases "env_step s")
  have t: "trace s0 = trace s" using env_step_trace[of s] e by simp
  show ?thesis
  proof (cases f)
    case True
    then show ?thesis using a e t by (auto simp: stat_mtime_def logged_def)
  next
    case False
    show ?thesis
    proof (cases "marker s0")
      case None
      then show ?thesis using a e t False by (auto simp: stat_mtime_def logged_def)
    next
      case (Some m)
      then have "r = Some m" "s1 = logged Stat LockPath True s0"
        using a e False by (simp_all add: stat_mtime_def)
      then show ?thesis using t by (simp add: logged_def)
    qed
  qed
qed

lemma unlink_trace:
  "unlink s = (r, s1) \<Longrightarrow> trace s1 = trace s @ [(Unlink, LockPath, r = Unlinked)]"
  using env_step_trace[of s]
  by (auto simp: unlink_def logged_def split: prod.splits bool.splits option.splits)

lemma release_trace_eq:
  "release s = (r, s1) \<Longrightarrow> \<exists>u. trace s1 = trace s @ [(Unlink, LockPath, u)]"
  using release_trace[of s] by simp

text \<open>A step of a persist does not look at the persists either, and keeps who it is.\<close>

lemma loop_guard_tasks:
  "loop_guard tk (s\<lparr>tasks := X\<rparr>) = (fst (loop_guard tk s), (snd (loop_guard tk s))\<lparr>tasks := X\<rparr>)"
  by (simp add: loop_guard_def warn_def)

lemma task_step_tasks:
  "task_step tk (s\<lparr>tasks := X\<rparr>) = (fst (task_step tk s), (snd (task_step tk s))\<lparr>tasks := X\<rparr>)"
proof (cases "t_stage tk")
  case CreateIssued
  then show ?thesis
    by (auto simp: task_step_def writeFile_wx_tasks warn_tasks split: prod.splits wx_result.splits)
next
  case StatIssued
  then show ?thesis
    by (auto simp: task_step_def stat_mtime_tasks loop_guard_tasks split: prod.splits option.splits)
next
  case UnlinkIssued
  then show ?thesis by (simp add: task_step_def unlink_tasks loop_guard_tasks)
next
  case (TimerSet w)
  then show ?thesis by (simp add: task_step_def loop_guard_tasks)
next
  case Refused
  then show ?thesis by (simp add: task_step_def warn_tasks)
next
  case EnsureIssued
  then show ?thesis
    by (auto simp: task_step_def ensureFile_tasks split: prod.splits bool.splits)
next
  case (WriteIssued d)
  then show ?thesis by (auto simp: task_step_def writeJSON_tasks split: prod.splits)
next
  case (ReleaseIssued b)
  then show ?thesis by (auto simp: task_step_def release_tasks warn_tasks split: prod.splits)
next
  case Settled
  then show ?thesis by (simp add: task_step_def)
qed

lemma occur_resume_tasks:
  "n < length X \<Longrightarrow>
   occur (Resume n) (s\<lparr>tasks := X\<rparr>) =
     (snd (task_step (X ! n) s))
       \<lparr>tasks := X[n := (fst (task_step (X ! n) s))
                    \<lparr>t_log := t_log (fst (task_step (X ! n) s)) @
                              drop (length (trace s)) (trace (snd (task_step (X ! n) s)))\<rparr>]\<rparr>"
  by (simp add: task_step_tasks)

lemma occur_resume_at:
  assumes "n < length X"
  shows "occur (Resume n) (s\<lparr>tasks := X[n := tk]\<rparr>) =
     (snd (task_step tk s))
       \<lparr>tasks := X[n := (fst (task_step tk s))
                    \<lparr>t_log := t_log (fst (task_step tk s)) @
                              drop (length (trace s)) (trace (snd (task_step tk s)))\<rparr>]\<rparr>"
  using occur_resume_tasks[of n "X[n := tk]" s] assms by simp

lemma occur_elapse_tasks:
  "occur (Elapse d) (s\<lparr>tasks := X\<rparr>) = (s\<lparr>now := now s + int d\<rparr>)\<lparr>tasks := X\<rparr>"
  by simp

lemma occur_resume_settled:
  assumes "n < length X"
  shows "occur (Resume n) (s\<lparr>tasks := X[n := tk\<lparr>t_stage := Settled, t_log := lg\<rparr>]\<rparr>) =
         s\<lparr>tasks := X[n := tk\<lparr>t_stage := Settled, t_log := lg\<rparr>]\<rparr>"
  using assms by (simp add: occur_resume_at task_step_def del: occur.simps)

lemma persist_tail:
  assumes n: "n < length X" and i: "t_ctx tk = i"
  shows "\<exists>lg'. fold occur [Resume n, Resume n, Resume n]
                 (s1\<lparr>tasks := X[n := tk\<lparr>t_stage := EnsureIssued, t_log := lg\<rparr>]\<rparr>) =
               (after_acquire i (Returned True, s1))
                 \<lparr>tasks := X[n := tk\<lparr>t_stage := Settled, t_log := lg'\<rparr>]\<rparr>"
proof -
  obtain e s2 where e: "ensureFile s1 = (e, s2)" by (cases "ensureFile s1")
  show ?thesis
  proof (cases e)
    case False
    obtain ok s3 where r: "release s2 = (ok, s3)" by (cases "release s2")
    have 1: "occur (Resume n) (s1\<lparr>tasks := X[n := tk\<lparr>t_stage := EnsureIssued, t_log := lg\<rparr>]\<rparr>) =
             s2\<lparr>tasks := X[n := tk\<lparr>t_stage := ReleaseIssued True,
                                  t_log := lg @ drop (length (trace s1)) (trace s2)\<rparr>]\<rparr>"
      using n e False by (simp add: occur_resume_at task_step_def del: occur.simps)
    have 2: "occur (Resume n) (s2\<lparr>tasks := X[n := tk\<lparr>t_stage := ReleaseIssued True,
                                  t_log := lg @ drop (length (trace s1)) (trace s2)\<rparr>]\<rparr>) =
             (warn SaveFailed s3)\<lparr>tasks := X[n := tk\<lparr>t_stage := Settled,
                 t_log := lg @ drop (length (trace s1)) (trace s2) @
                          drop (length (trace s2)) (trace (warn SaveFailed s3))\<rparr>]\<rparr>"
      using n r by (simp add: occur_resume_at task_step_def del: occur.simps)
    have a: "after_acquire i (Returned True, s1) = warn SaveFailed s3"
      using e False r by (simp add: after_acquire_def)
    show ?thesis
      unfolding a by (simp only: fold_simps comp_def 1 2 occur_resume_settled[OF n]) blast
  next
    case True
    obtain w s3 where w: "writeJSON (mirror (ctxs s2 ! i)) s2 = (w, s3)"
      by (cases "writeJSON (mirror (ctxs s2 ! i)) s2")
    obtain ok s4 where r: "release s3 = (ok, s4)" by (cases "release s3")
    let ?f = "if \<not> w \<or> \<not> ok then warn SaveFailed s4 else s4"
    have 1: "occur (Resume n) (s1\<lparr>tasks := X[n := tk\<lparr>t_stage := EnsureIssued, t_log := lg\<rparr>]\<rparr>) =
             s2\<lparr>tasks := X[n := tk\<lparr>t_stage := WriteIssued (mirror (ctxs s2 ! i)),
                                  t_log := lg @ drop (length (trace s1)) (trace s2)\<rparr>]\<rparr>"
      using n e True i by (simp add: occur_resume_at task_step_def del: occur.simps)
    have 2: "occur (Resume n) (s2\<lparr>tasks := X[n := tk\<lparr>t_stage := WriteIssued (mirror (ctxs s2 ! i)),
                                  t_log := lg @ drop (length (trace s1)) (trace s2)\<rparr>]\<rparr>) =
             s3\<lparr>tasks := X[n := tk\<lparr>t_stage := ReleaseIssued (\<not> w),
                 t_log := lg @ drop (length (trace s1)) (trace s2) @
                          drop (length (trace s2)) (trace s3)\<rparr>]\<rparr>"
      using n w by (simp add: occur_resume_at task_step_def del: occur.simps)
    have 3: "occur (Resume n) (s3\<lparr>tasks := X[n := tk\<lparr>t_stage := ReleaseIssued (\<not> w),
                 t_log := lg @ drop (length (trace s1)) (trace s2) @
                          drop (length (trace s2)) (trace s3)\<rparr>]\<rparr>) =
             ?f\<lparr>tasks := X[n := tk\<lparr>t_stage := Settled,
                 t_log := lg @ drop (length (trace s1)) (trace s2) @
                          drop (length (trace s2)) (trace s3) @ drop (length (trace s3)) (trace ?f)\<rparr>]\<rparr>"
      using n r by (simp add: occur_resume_at task_step_def del: occur.simps)
    have a: "after_acquire i (Returned True, s1) = ?f"
      using e True w r by (cases w; cases ok) (simp_all add: after_acquire_def)
    show ?thesis
      unfolding a by (simp only: fold_simps comp_def 1 2 3) blast
  qed
qed


lemma fold_occur_append: "fold occur (a @ b) s = fold occur b (fold occur a s)"
  by simp

lemma persist_loop:
  assumes n: "n < length X" and i: "t_ctx tk = i"
  shows "t_start tk = st \<Longrightarrow> lock_timeout (ctxs s ! i) = t \<Longrightarrow> now s - st < t \<Longrightarrow>
     \<exists>evs lg'. set evs \<subseteq> {Resume n, Elapse 10} \<and>
        fold occur evs (s\<lparr>tasks := X[n := tk\<lparr>t_stage := CreateIssued, t_log := lg\<rparr>]\<rparr>) =
        (after_acquire i (acquire_loop t st s))\<lparr>tasks := X[n := tk\<lparr>t_stage := Settled, t_log := lg'\<rparr>]\<rparr>"
proof (induction t st s arbitrary: lg rule: acquire_loop.induct)
  case (1 timeout start s)
  note st = "1.prems"(1) and lt = "1.prems"(2) and g = "1.prems"(3)
  let ?M = "\<lambda>s' S l. s'\<lparr>tasks := X[n := tk\<lparr>t_stage := S, t_log := l\<rparr>]\<rparr>"
  have guard: "\<exists>evs lg'. set evs \<subseteq> {Resume n, Elapse 10} \<and>
        fold occur evs (snd (loop_guard (tk\<lparr>t_stage := S, t_log := l\<rparr>) s2)
                         \<lparr>tasks := X[n := (fst (loop_guard (tk\<lparr>t_stage := S, t_log := l\<rparr>) s2))\<lparr>t_log := l'\<rparr>]\<rparr>) =
        (after_acquire i (acquire_loop timeout start s2))\<lparr>tasks := X[n := tk\<lparr>t_stage := Settled, t_log := lg'\<rparr>]\<rparr>"
    if ih: "\<And>lg. now s2 - start < timeout \<Longrightarrow>
              \<exists>evs lg'. set evs \<subseteq> {Resume n, Elapse 10} \<and>
                fold occur evs (?M s2 CreateIssued lg) =
                (after_acquire i (acquire_loop timeout start s2))\<lparr>tasks := X[n := tk\<lparr>t_stage := Settled, t_log := lg'\<rparr>]\<rparr>"
      and c: "ctxs s2 = ctxs s"
    for s2 S l l'
  proof (cases "now s2 - start < timeout")
    case True
    then have "loop_guard (tk\<lparr>t_stage := S, t_log := l\<rparr>) s2 = (tk\<lparr>t_stage := CreateIssued, t_log := l\<rparr>, s2)"
      using c lt st i by (simp add: loop_guard_def)
    then show ?thesis using ih[OF True, of l'] by simp
  next
    case False
    then have "loop_guard (tk\<lparr>t_stage := S, t_log := l\<rparr>) s2 =
                 (tk\<lparr>t_stage := Settled, t_log := l\<rparr>, warn LockNotAcquired s2)"
      using c lt st i by (simp add: loop_guard_def)
    moreover have "after_acquire i (acquire_loop timeout start s2) = warn LockNotAcquired s2"
      using False by (subst acquire_loop.simps) (simp add: after_acquire_def)
    ultimately show ?thesis
      by (intro exI[of _ "[]"] exI[of _ l']) simp
  qed
  obtain r s1 where w: "writeFile_wx s = (r, s1)" by (cases "writeFile_wx s")
  have c1: "ctxs s1 = ctxs s" using writeFile_wx_same[of s] w by (simp add: same_process_def)
  show ?case
  proof (cases r)
    case Created
    have 1: "occur (Resume n) (?M s CreateIssued lg) =
             ?M s1 EnsureIssued (lg @ drop (length (trace s)) (trace s1))"
      using n w Created by (simp add: occur_resume_at task_step_def del: occur.simps)
    obtain lg' where 2: "fold occur [Resume n, Resume n, Resume n]
                 (?M s1 EnsureIssued (lg @ drop (length (trace s)) (trace s1))) =
               (after_acquire i (Returned True, s1))\<lparr>tasks := X[n := tk\<lparr>t_stage := Settled, t_log := lg'\<rparr>]\<rparr>"
      using persist_tail[OF n i] by blast
    have a: "acquire_loop timeout start s = (Returned True, s1)"
      using g w Created by (subst acquire_loop.simps) simp
    have "fold occur ([Resume n] @ [Resume n, Resume n, Resume n]) (?M s CreateIssued lg) =
          (after_acquire i (acquire_loop timeout start s))\<lparr>tasks := X[n := tk\<lparr>t_stage := Settled, t_log := lg'\<rparr>]\<rparr>"
      unfolding a fold_occur_append using 1 2 by (simp del: occur.simps)
    then show ?thesis
      by (intro exI[of _ "[Resume n] @ [Resume n, Resume n, Resume n]"] exI[of _ lg']) simp
  next
    case IOError
    have 1: "occur (Resume n) (?M s CreateIssued lg) =
             ?M (warn SaveFailed s1) Settled (lg @ drop (length (trace s)) (trace (warn SaveFailed s1)))"
      using n w IOError by (simp add: occur_resume_at task_step_def del: occur.simps)
    have a: "acquire_loop timeout start s = (Threw, s1)"
      using g w IOError by (subst acquire_loop.simps) simp
    have "fold occur [Resume n] (?M s CreateIssued lg) =
          (after_acquire i (acquire_loop timeout start s))
            \<lparr>tasks := X[n := tk\<lparr>t_stage := Settled,
                               t_log := lg @ drop (length (trace s)) (trace (warn SaveFailed s1))\<rparr>]\<rparr>"
      unfolding a using 1 by (simp add: after_acquire_def del: occur.simps)
    then show ?thesis
      by (intro exI[of _ "[Resume n]"] exI[of _ "lg @ drop (length (trace s)) (trace (warn SaveFailed s1))"]) simp
  next
    case EEXIST
    let ?l1 = "lg @ drop (length (trace s)) (trace s1)"
    have 1: "occur (Resume n) (?M s CreateIssued lg) = ?M s1 StatIssued ?l1"
      using n w EEXIST by (simp add: occur_resume_at task_step_def del: occur.simps)
    obtain q s2 where q: "stat_mtime s1 = (q, s2)" by (cases "stat_mtime s1")
    have c2: "ctxs s2 = ctxs s" using stat_mtime_same[of s1] q c1 by (simp add: same_process_def)
    show ?thesis
    proof (cases q)
      case None
      let ?G = "loop_guard (tk\<lparr>t_stage := StatIssued, t_log := ?l1\<rparr>) s2"
      have 2: "occur (Resume n) (?M s1 StatIssued ?l1) =
               (snd ?G)\<lparr>tasks := X[n := (fst ?G)\<lparr>t_log := t_log (fst ?G) @ drop (length (trace s1)) (trace (snd ?G))\<rparr>]\<rparr>"
        using n q None by (simp add: occur_resume_at task_step_def del: occur.simps)
      have ih: "\<And>lg. now s2 - start < timeout \<Longrightarrow>
              \<exists>evs lg'. set evs \<subseteq> {Resume n, Elapse 10} \<and>
                fold occur evs (?M s2 CreateIssued lg) =
                (after_acquire i (acquire_loop timeout start s2))\<lparr>tasks := X[n := tk\<lparr>t_stage := Settled, t_log := lg'\<rparr>]\<rparr>"
        using "1.IH"(1)[OF g w[symmetric] EEXIST q[symmetric] None st] c2 lt by simp
      obtain evs lg' where e: "set evs \<subseteq> {Resume n, Elapse 10}"
        "fold occur evs ((snd ?G)\<lparr>tasks := X[n := (fst ?G)\<lparr>t_log := t_log (fst ?G) @ drop (length (trace s1)) (trace (snd ?G))\<rparr>]\<rparr>) =
         (after_acquire i (acquire_loop timeout start s2))\<lparr>tasks := X[n := tk\<lparr>t_stage := Settled, t_log := lg'\<rparr>]\<rparr>"
        using guard[OF ih c2] by blast
      have a: "acquire_loop timeout start s = acquire_loop timeout start s2"
        using g w EEXIST q None by (subst acquire_loop.simps) simp
      have "fold occur ([Resume n, Resume n] @ evs) (?M s CreateIssued lg) =
            (after_acquire i (acquire_loop timeout start s))\<lparr>tasks := X[n := tk\<lparr>t_stage := Settled, t_log := lg'\<rparr>]\<rparr>"
        unfolding a fold_occur_append using 1 2 e(2) by (simp del: occur.simps)
      then show ?thesis
        using e(1) by (intro exI[of _ "[Resume n, Resume n] @ evs"] exI[of _ lg']) simp
    next
      case (Some m)
      show ?thesis
      proof (cases "timeout * 2 < now s2 - m")
        case stale: True
        let ?l2 = "?l1 @ drop (length (trace s1)) (trace s2)"
        have 2: "occur (Resume n) (?M s1 StatIssued ?l1) = ?M s2 UnlinkIssued ?l2"
          using n q Some stale c2 lt i
          by (simp add: occur_resume_at task_step_def del: occur.simps)
        let ?s3 = "snd (unlink s2)"
        have c3: "ctxs ?s3 = ctxs s" using unlink_same[of s2] c2 by (simp add: same_process_def)
        let ?G = "loop_guard (tk\<lparr>t_stage := UnlinkIssued, t_log := ?l2\<rparr>) ?s3"
        have 3: "occur (Resume n) (?M s2 UnlinkIssued ?l2) =
               (snd ?G)\<lparr>tasks := X[n := (fst ?G)\<lparr>t_log := t_log (fst ?G) @ drop (length (trace s2)) (trace (snd ?G))\<rparr>]\<rparr>"
          using n by (simp add: occur_resume_at task_step_def del: occur.simps)
        have ih: "\<And>lg. now ?s3 - start < timeout \<Longrightarrow>
              \<exists>evs lg'. set evs \<subseteq> {Resume n, Elapse 10} \<and>
                fold occur evs (?M ?s3 CreateIssued lg) =
                (after_acquire i (acquire_loop timeout start ?s3))\<lparr>tasks := X[n := tk\<lparr>t_stage := Settled, t_log := lg'\<rparr>]\<rparr>"
          using "1.IH"(2)[OF g w[symmetric] EEXIST q[symmetric] Some stale st] c3 lt by simp
        obtain evs lg' where e: "set evs \<subseteq> {Resume n, Elapse 10}"
          "fold occur evs ((snd ?G)\<lparr>tasks := X[n := (fst ?G)\<lparr>t_log := t_log (fst ?G) @ drop (length (trace s2)) (trace (snd ?G))\<rparr>]\<rparr>) =
           (after_acquire i (acquire_loop timeout start ?s3))\<lparr>tasks := X[n := tk\<lparr>t_stage := Settled, t_log := lg'\<rparr>]\<rparr>"
          using guard[OF ih c3] by blast
        have a: "acquire_loop timeout start s = acquire_loop timeout start ?s3"
          using g w EEXIST q Some stale by (subst acquire_loop.simps) simp
        have "fold occur ([Resume n, Resume n, Resume n] @ evs) (?M s CreateIssued lg) =
              (after_acquire i (acquire_loop timeout start s))\<lparr>tasks := X[n := tk\<lparr>t_stage := Settled, t_log := lg'\<rparr>]\<rparr>"
          unfolding a fold_occur_append using 1 2 3 e(2) by (simp del: occur.simps)
        then show ?thesis
          using e(1) by (intro exI[of _ "[Resume n, Resume n, Resume n] @ evs"] exI[of _ lg']) simp
      next
        case fresh: False
        let ?l2 = "?l1 @ drop (length (trace s1)) (trace s2)"
        have 2: "occur (Resume n) (?M s1 StatIssued ?l1) = ?M s2 (TimerSet (now s2 + 10)) ?l2"
          using n q Some fresh c2 lt i
          by (simp add: occur_resume_at task_step_def del: occur.simps)
        let ?s3 = "sleep 10 s2"
        have c3: "ctxs ?s3 = ctxs s" using c2 by (simp add: sleep_def)
        have 3: "occur (Elapse 10) (?M s2 (TimerSet (now s2 + 10)) ?l2) = ?M ?s3 (TimerSet (now s2 + 10)) ?l2"
          by (simp add: sleep_def)
        let ?G = "loop_guard (tk\<lparr>t_stage := TimerSet (now s2 + 10), t_log := ?l2\<rparr>) ?s3"
        have 4: "occur (Resume n) (?M ?s3 (TimerSet (now s2 + 10)) ?l2) =
               (snd ?G)\<lparr>tasks := X[n := (fst ?G)\<lparr>t_log := t_log (fst ?G) @ drop (length (trace ?s3)) (trace (snd ?G))\<rparr>]\<rparr>"
          using n by (simp add: occur_resume_at task_step_def sleep_def del: occur.simps)
        have ih: "\<And>lg. now ?s3 - start < timeout \<Longrightarrow>
              \<exists>evs lg'. set evs \<subseteq> {Resume n, Elapse 10} \<and>
                fold occur evs (?M ?s3 CreateIssued lg) =
                (after_acquire i (acquire_loop timeout start ?s3))\<lparr>tasks := X[n := tk\<lparr>t_stage := Settled, t_log := lg'\<rparr>]\<rparr>"
          using "1.IH"(3)[OF g w[symmetric] EEXIST q[symmetric] Some fresh st] c3 lt by simp
        obtain evs lg' where e: "set evs \<subseteq> {Resume n, Elapse 10}"
          "fold occur evs ((snd ?G)\<lparr>tasks := X[n := (fst ?G)\<lparr>t_log := t_log (fst ?G) @ drop (length (trace ?s3)) (trace (snd ?G))\<rparr>]\<rparr>) =
           (after_acquire i (acquire_loop timeout start ?s3))\<lparr>tasks := X[n := tk\<lparr>t_stage := Settled, t_log := lg'\<rparr>]\<rparr>"
          using guard[OF ih c3] by blast
        have a: "acquire_loop timeout start s = acquire_loop timeout start ?s3"
          using g w EEXIST q Some fresh by (subst acquire_loop.simps) simp
        have "fold occur ([Resume n, Resume n, Elapse 10, Resume n] @ evs) (?M s CreateIssued lg) =
              (after_acquire i (acquire_loop timeout start s))\<lparr>tasks := X[n := tk\<lparr>t_stage := Settled, t_log := lg'\<rparr>]\<rparr>"
          unfolding a fold_occur_append using 1 2 3 4 e(2) by (simp del: occur.simps)
        then show ?thesis
          using e(1) by (intro exI[of _ "[Resume n, Resume n, Elapse 10, Resume n] @ evs"] exI[of _ lg']) simp
      qed
    qed
  qed
qed


text \<open>
  A persist that runs from its start to its end, stepped alone and with 10ms passing at each
  timer, leaves the state that \<open>performSave\<close> and the rejection handler compute.
\<close>

lemma persist_alone:
  "\<exists>evs lg. set evs \<subseteq> {Resume (length (tasks s)), Elapse 10} \<and>
     fold occur evs (start_save i s) =
       (save_alone i s)\<lparr>tasks := tasks s @
          [\<lparr>t_ctx = i, t_start = now s, t_stage = Settled, t_log = lg\<rparr>]\<rparr>"
proof -
  let ?n = "length (tasks s)"
  let ?t = "lock_timeout (ctxs s ! i)"
  let ?tk = "\<lparr>t_ctx = i, t_start = now s, t_stage = Refused, t_log = []\<rparr>"
  let ?X = "tasks s @ [?tk]"
  have n: "?n < length ?X" by simp
  have u: "\<And>S l. ?X[?n := ?tk\<lparr>t_stage := S, t_log := l\<rparr>] =
                  tasks s @ [\<lparr>t_ctx = i, t_start = now s, t_stage = S, t_log = l\<rparr>]"
    by simp
  show ?thesis
  proof (cases "0 < ?t")
    case True
    have s0: "start_save i s = s\<lparr>tasks := ?X[?n := ?tk\<lparr>t_stage := CreateIssued, t_log := []\<rparr>]\<rparr>"
      using True by (simp add: start_save_def)
    obtain evs lg' where e: "set evs \<subseteq> {Resume ?n, Elapse 10}"
      "fold occur evs (s\<lparr>tasks := ?X[?n := ?tk\<lparr>t_stage := CreateIssued, t_log := []\<rparr>]\<rparr>) =
        (after_acquire i (acquire_loop ?t (now s) s))
          \<lparr>tasks := ?X[?n := ?tk\<lparr>t_stage := Settled, t_log := lg'\<rparr>]\<rparr>"
      using persist_loop[OF n, of ?tk i "now s" s ?t "[]"] True by auto
    have "fold occur evs (start_save i s) =
       (save_alone i s)\<lparr>tasks := tasks s @
          [\<lparr>t_ctx = i, t_start = now s, t_stage = Settled, t_log = lg'\<rparr>]\<rparr>"
      unfolding s0 e(2) by (simp add: save_alone_after acquire_def)
    then show ?thesis using e(1) by blast
  next
    case False
    have s0: "start_save i s = s\<lparr>tasks := ?X[?n := ?tk\<lparr>t_stage := Refused, t_log := []\<rparr>]\<rparr>"
      using False by (simp add: start_save_def)
    have a: "save_alone i s = warn LockNotAcquired s"
      using False by (simp add: save_alone_after acquire_def after_acquire_def acquire_loop.simps)
    have "occur (Resume ?n) (s\<lparr>tasks := ?X[?n := ?tk\<lparr>t_stage := Refused, t_log := []\<rparr>]\<rparr>) =
          (warn LockNotAcquired s)
            \<lparr>tasks := ?X[?n := ?tk\<lparr>t_stage := Settled,
                 t_log := [] @ drop (length (trace s)) (trace (warn LockNotAcquired s))\<rparr>]\<rparr>"
      using occur_resume_tasks[of ?n ?X s] by (simp add: task_step_def warn_def del: occur.simps)
    then have "fold occur [Resume ?n] (start_save i s) =
       (save_alone i s)\<lparr>tasks := tasks s @
          [\<lparr>t_ctx = i, t_start = now s, t_stage = Settled, t_log = []\<rparr>]\<rparr>"
      unfolding s0 a by (simp del: occur.simps)
    then show ?thesis
      by (intro exI[of _ "[Resume ?n]"] exI[of _ "[]"]) simp
  qed
qed

text \<open>The calls of each persist come in the order of \<open>performSave\<close>, whatever runs between.\<close>

lemma task_step_same_tasks: "tasks (snd (task_step t s)) = tasks s"
proof -
  have e: "task_step t s = (fst (task_step t s), (snd (task_step t s))\<lparr>tasks := tasks s\<rparr>)"
    using task_step_tasks[where tk = t and s = s and X = "tasks s"] by simp
  from arg_cong[OF e, of "\<lambda>p. tasks (snd p)"] show ?thesis by simp
qed

lemma lock_phase_snoc:
  "lock_phase lg \<Longrightarrow> fst (snd x) = LockPath \<Longrightarrow> x \<noteq> (WriteExcl, LockPath, True) \<Longrightarrow>
   lock_phase (lg @ [x])"
  by (simp add: lock_phase_def)

lemma loop_guard_fits:
  assumes "lock_phase lg" "loop_guard t s = (t', s')"
  shows "t_log t' = t_log t \<and> trace s' = trace s \<and> log_fits (t_stage t') lg"
  using assms by (auto simp: loop_guard_def split: if_splits)

lemma task_step_fits:
  assumes f: "log_fits (t_stage t) (t_log t)" and s: "task_step t s = (t', s')"
  shows "t_log t' = t_log t \<and>
         (\<exists>xs. trace s' = trace s @ xs \<and> log_fits (t_stage t') (t_log t @ xs))"
proof (cases "t_stage t")
  case CreateIssued
  obtain r s1 where w: "writeFile_wx s = (r, s1)" by (cases "writeFile_wx s")
  have tr: "trace s1 = trace s @ [(WriteExcl, LockPath, r = Created)]"
    using writeFile_wx_trace[OF w] .
  have lp: "lock_phase (t_log t)" using f CreateIssued by simp
  show ?thesis
  proof (cases r)
    case Created
    then have "t' = t\<lparr>t_stage := EnsureIssued\<rparr>" "s' = s1"
      using s w CreateIssued by (simp_all add: task_step_def)
    then show ?thesis using tr lp Created by auto
  next
    case EEXIST
    then have "t' = t\<lparr>t_stage := StatIssued\<rparr>" "s' = s1"
      using s w CreateIssued by (simp_all add: task_step_def)
    then show ?thesis using tr lock_phase_snoc[OF lp, of "(WriteExcl, LockPath, False)"] EEXIST by simp
  next
    case IOError
    then have "t' = t\<lparr>t_stage := Settled\<rparr>" "s' = warn SaveFailed s1"
      using s w CreateIssued by (simp_all add: task_step_def)
    then show ?thesis using tr lock_phase_snoc[OF lp, of "(WriteExcl, LockPath, False)"] IOError by simp
  qed
next
  case StatIssued
  obtain q s1 where q: "stat_mtime s = (q, s1)" by (cases "stat_mtime s")
  have tr: "trace s1 = trace s @ [(Stat, LockPath, q \<noteq> None)]" using stat_mtime_trace[OF q] .
  have lp: "lock_phase (t_log t @ [(Stat, LockPath, q \<noteq> None)])"
    using f StatIssued lock_phase_snoc[of "t_log t" "(Stat, LockPath, q \<noteq> None)"] by simp
  show ?thesis
  proof (cases q)
    case None
    then have "loop_guard t s1 = (t', s')" using s q StatIssued by (simp add: task_step_def)
    from loop_guard_fits[OF lp this] show ?thesis using tr by simp
  next
    case (Some m)
    then have "s' = s1" "t_log t' = t_log t" "t_stage t' = UnlinkIssued \<or> (\<exists>w. t_stage t' = TimerSet w)"
      using s q StatIssued by (auto simp: task_step_def split: if_splits)
    then show ?thesis using tr lp by auto
  qed
next
  case UnlinkIssued
  obtain r s1 where u: "unlink s = (r, s1)" by (cases "unlink s")
  have tr: "trace s1 = trace s @ [(Unlink, LockPath, r = Unlinked)]" using unlink_trace[OF u] .
  have lp: "lock_phase (t_log t @ [(Unlink, LockPath, r = Unlinked)])"
    using f UnlinkIssued lock_phase_snoc[of "t_log t" "(Unlink, LockPath, r = Unlinked)"] by simp
  have "loop_guard t s1 = (t', s')" using s u UnlinkIssued by (simp add: task_step_def)
  from loop_guard_fits[OF lp this] show ?thesis using tr by simp
next
  case (TimerSet w)
  have lp: "lock_phase (t_log t)" using f TimerSet by simp
  show ?thesis
  proof (cases "w \<le> now s")
    case True
    then have "loop_guard t s = (t', s')" using s TimerSet by (simp add: task_step_def)
    from loop_guard_fits[OF lp this] show ?thesis by simp
  next
    case False
    then have "t' = t" "s' = s" using s TimerSet by (simp_all add: task_step_def)
    then show ?thesis using f by simp
  qed
next
  case Refused
  then have "t' = t\<lparr>t_stage := Settled\<rparr>" "s' = warn LockNotAcquired s"
    using s by (simp_all add: task_step_def)
  then show ?thesis using f Refused by simp
next
  case EnsureIssued
  obtain e s1 where e: "ensureFile s = (e, s1)" by (cases "ensureFile s")
  have tr: "trace s1 = trace s @ [(Ensure, DocPath, e)]" using ensureFile_trace[OF e] .
  obtain pre where p: "lock_phase pre" "t_log t = pre @ [(WriteExcl, LockPath, True)]"
    using f EnsureIssued by auto
  show ?thesis
  proof (cases e)
    case True
    then have "t' = t\<lparr>t_stage := WriteIssued (mirror (ctxs s1 ! t_ctx t))\<rparr>" "s' = s1"
      using s e EnsureIssued by (auto simp: task_step_def)
    then show ?thesis using tr p True by auto
  next
    case False
    then have "t' = t\<lparr>t_stage := ReleaseIssued True\<rparr>" "s' = s1"
      using s e EnsureIssued by (simp_all add: task_step_def)
    moreover have "log_fits (ReleaseIssued True) (t_log t @ [(Ensure, DocPath, False)])"
      unfolding log_fits.simps
      by (rule exI[of _ pre], rule exI[of _ False], rule exI[of _ False]) (simp add: p)
    ultimately show ?thesis using tr False by simp
  qed
next
  case (WriteIssued d)
  obtain w s1 where w: "writeJSON d s = (w, s1)" by (cases "writeJSON d s")
  have tr: "trace s1 = trace s @ [(Write, DocPath, w)]" using writeJSON_trace[OF w] .
  obtain pre where p: "lock_phase pre"
    "t_log t = pre @ [(WriteExcl, LockPath, True), (Ensure, DocPath, True)]"
    using f WriteIssued by auto
  have "t' = t\<lparr>t_stage := ReleaseIssued (\<not> w)\<rparr>" "s' = s1"
    using s w WriteIssued by (simp_all add: task_step_def)
  moreover have "log_fits (ReleaseIssued (\<not> w)) (t_log t @ [(Write, DocPath, w)])"
    unfolding log_fits.simps
    by (rule exI[of _ pre], rule exI[of _ True], rule exI[of _ w]) (simp add: p)
  ultimately show ?thesis using tr by simp
next
  case (ReleaseIssued threw)
  obtain ok s1 where r: "release s = (ok, s1)" by (cases "release s")
  obtain u where tr: "trace s1 = trace s @ [(Unlink, LockPath, u)]"
    using release_trace_eq[OF r] by blast
  obtain pre e w where p: "lock_phase pre"
    "t_log t = pre @ (WriteExcl, LockPath, True) # (Ensure, DocPath, e) #
                 (if e then [(Write, DocPath, w)] else [])"
    using f ReleaseIssued by auto
  have t': "t' = t\<lparr>t_stage := Settled\<rparr>" and s': "trace s' = trace s1"
    using s r ReleaseIssued by (auto simp: task_step_def)
  have "\<exists>pre' e' w' u'. lock_phase pre' \<and>
         t_log t @ [(Unlink, LockPath, u)] =
           pre' @ (WriteExcl, LockPath, True) # (Ensure, DocPath, e') #
                  (if e' then [(Write, DocPath, w')] else []) @ [(Unlink, LockPath, u')]"
    by (rule exI[of _ pre], rule exI[of _ e], rule exI[of _ w], rule exI[of _ u]) (simp add: p)
  then have "log_fits Settled (t_log t @ [(Unlink, LockPath, u)])"
    by simp
  then show ?thesis using t' s' tr by simp
next
  case Settled
  then have "t' = t" "s' = s" using s by (simp_all add: task_step_def)
  then show ?thesis using f by simp
qed

lemma occur_orderly: "orderly s \<Longrightarrow> orderly (occur e s)"
proof (cases e)
  case (Signal i sg)
  assume o: "orderly s"
  show ?thesis
  proof (cases "i < length (ctxs s)")
    case False
    then show ?thesis using Signal o by simp
  next
    case True
    obtain xs where x: "tasks (deliver i sg s) = tasks s @ xs"
      "\<forall>t\<in>set xs. t_log t = [] \<and> (t_stage t = CreateIssued \<or> t_stage t = Refused)"
      using spawns_deliver[of s i sg] unfolding spawns_def by blast
    have "\<forall>t\<in>set xs. log_fits (t_stage t) (t_log t)"
      using x(2) by (auto simp: lock_phase_def)
    then show ?thesis using Signal True o x(1) by (auto simp: orderly_def)
  qed
next
  case (Resume n)
  assume o: "orderly s"
  show ?thesis
  proof (cases "n < length (tasks s)")
    case False
    then show ?thesis using Resume o by simp
  next
    case True
    obtain t' s' where ts: "task_step (tasks s ! n) s = (t', s')" by (cases "task_step (tasks s ! n) s")
    have f: "log_fits (t_stage (tasks s ! n)) (t_log (tasks s ! n))"
      using o True by (simp add: orderly_def)
    from task_step_fits[OF f ts] obtain xs where
      l: "t_log t' = t_log (tasks s ! n)" and tr: "trace s' = trace s @ xs"
      and fit: "log_fits (t_stage t') (t_log (tasks s ! n) @ xs)" by blast
    have tk: "tasks s' = tasks s" using task_step_same_tasks[of "tasks s ! n" s] ts by simp
    let ?t = "t'\<lparr>t_log := t_log t' @ drop (length (trace s)) (trace s')\<rparr>"
    have "occur e s = s'\<lparr>tasks := (tasks s)[n := ?t]\<rparr>"
      using Resume True ts tk by simp
    moreover have "log_fits (t_stage ?t) (t_log ?t)" using l tr fit by simp
    moreover have "set ((tasks s)[n := ?t]) \<subseteq> insert ?t (set (tasks s))"
      by (rule set_update_subset_insert)
    ultimately show ?thesis using o unfolding orderly_def by auto
  qed
next
  case (Elapse d)
  assume "orderly s"
  then show ?thesis using Elapse by (simp add: orderly_def)
qed

lemma occur_all_orderly: "orderly s \<Longrightarrow> orderly (fold occur evs s)"
  by (induction evs arbitrary: s) (simp_all add: occur_orderly)

section \<open>Mutations past the proxy, and one live context\<close>





lemma ctxs_set_mirror_other:
  "j \<noteq> i \<Longrightarrow> ctxs (set_mirror i m s) ! j = ctxs s ! j"
  by (simp add: set_mirror_def upd_ctx_def)

lemma ctxs_set_mirror_length [simp]: "length (ctxs (set_mirror i m s)) = length (ctxs s)"
  by (simp add: set_mirror_def)








text \<open>
  A persist whose \<open>ensureFile\<close> is awaited writes the Mirror as it is when that call
  completes, whatever the Mirror was when the persist started.
\<close>

lemma persist_write_quiet:
  assumes n: "n < length (tasks s)" and c: "t_stage (tasks s ! n) = EnsureIssued"
    and q: "pending s = []"
  shows "doc (fold occur [Resume n, Resume n] s) =
           Parsed (JObj (mirror (ctxs s ! t_ctx (tasks s ! n))))"
proof -
  let ?tk = "tasks s ! n"
  let ?s2 = "s\<lparr>doc := (if doc s = Missing then Unparsable else doc s),
               trace := trace s @ [(Ensure, DocPath, True)],
               tasks := (tasks s)[n := ?tk\<lparr>t_stage := WriteIssued (mirror (ctxs s ! t_ctx ?tk)),
                            t_log := t_log ?tk @ [(Ensure, DocPath, True)]\<rparr>]\<rparr>"
  have 1: "occur (Resume n) s = ?s2"
    using n c q by (simp add: task_step_def ensureFile_def env_step_def logged_def)
  have 2: "doc (occur (Resume n) ?s2) = Parsed (JObj (mirror (ctxs s ! t_ctx ?tk)))"
    using n q by (simp add: task_step_def writeJSON_def env_step_def logged_def)
  show ?thesis
    by (simp only: fold_simps comp_def 1 2 id_apply)
qed




section \<open>The constructor\<close>

lemma run_effect_appended:
  "ctxs (run_effect i s) = ctxs s"
  using run_effect_frame[of i s] by simp

lemma construct_quiet:
  assumes q: "pending s = []" and n: "(case doc s of Parsed j \<Rightarrow> j | f \<Rightarrow> JObj []) \<noteq> JNull"
  shows "\<exists>s'. construct opts s = Inr s' \<and>
           ctxs s' = ctxs s @
             [\<lparr>mirror = assign (assign [] (initial_data opts))
                           (entries (case doc s of Parsed j \<Rightarrow> j | f \<Rightarrow> JObj [])),
               proto = ObjectPrototype,
               disposed = False, isUpdatingFromFile = False,
               initialized = (0 < length (entries (case doc s of Parsed j \<Rightarrow> j | f \<Rightarrow> JObj []))
                              \<or> 0 < length (initial_data opts)),
               cleanup = opt_cleanup opts, lockTimeout = opt_lockTimeout opts, watching = True\<rparr>] \<and>
           (\<not> test_mode s \<longrightarrow>
              doc s' = (if doc s = Missing then Unparsable else doc s) \<and>
              tasks s' = tasks s @
                [\<lparr>t_ctx = length (ctxs s), t_start = now s,
                  t_stage = (if 0 < (case opt_lockTimeout opts of None \<Rightarrow> 500 | Some t \<Rightarrow> t)
                             then CreateIssued else Refused),
                  t_log = []\<rparr>])"
proof -
  let ?j = "case doc s of Parsed j \<Rightarrow> j | f \<Rightarrow> JObj []"
  let ?s1 = "logged Ensure DocPath True (if doc s = Missing then s\<lparr>doc := Unparsable\<rparr> else s)"
  have e: "ensureFile s = (True, ?s1)" using q by (simp add: ensureFile_def env_step_def)
  have "\<exists>s2. loadFile ?s1 = (?j, s2) \<and> ctxs s2 = ctxs s \<and> tasks s2 = tasks s \<and> now s2 = now s \<and>
           test_mode s2 = test_mode s \<and> doc s2 = (if doc s = Missing then Unparsable else doc s)"
    using q by (cases "doc s")
      (simp_all add: loadFile_def existsSync_def readJSON_def env_step_def logged_def)
  then obtain s2 where l: "loadFile ?s1 = (?j, s2)" and c2: "ctxs s2 = ctxs s"
    and o2: "tasks s2 = tasks s" "now s2 = now s" "test_mode s2 = test_mode s"
      "doc s2 = (if doc s = Missing then Unparsable else doc s)" by blast
  have k: "object_keys ?j = Some (map fst (entries ?j))" using n by (simp add: object_keys_def)
  show ?thesis
    using e l k c2 o2
    by (simp add: construct_def Let_def upd_ctx_def run_effect_appended)
       (simp add: run_effect_def saveFile_def start_save_def lock_timeout_def Let_def)
qed

lemma construct_returns:
  assumes "pending s = []" "doc s \<noteq> Parsed JNull"
  shows "\<exists>s'. construct opts s = Inr s'"
proof -
  have "(case doc s of Parsed j \<Rightarrow> j | f \<Rightarrow> JObj []) \<noteq> JNull"
    using assms(2) by (cases "doc s") simp_all
  from construct_quiet[OF assms(1) this, of opts] show ?thesis by blast
qed

lemma map_of_merged:
  assumes "distinct (map fst a)" "distinct (map fst b)"
  shows "map_of (assign (assign [] a) b) k = (case map_of b k of Some v \<Rightarrow> Some v | None \<Rightarrow> map_of a k)"
proof -
  have "assign [] a = a" using assign_distinct[of "[]" a] assms(1) by simp
  then have "map_of (assign (assign [] a) b) = map_of a ++ map_of b"
    using map_of_assign[OF assms(2), of a] by simp
  then show ?thesis by (simp add: map_add_def)
qed

text \<open>
  With no event pending, the constructor returns a context when the document file is
  absent, holds text that does not parse (an empty file is such a text), or holds a JSON
  object. The new context is the last of the process and its Mirror is the initial data
  assigned to an empty object, then the loaded properties assigned over them. An absent or
  unparsable file loads as the empty object, so the Mirror is the initial data. For an
  object in the file, each key of the Mirror has the file's value when the file has the
  key, and the initial value otherwise. Keys of an object are distinct.
\<close>

lemma construct_seeds_mirror:
  "pending s = [] \<longrightarrow>
     ((doc s = Missing \<or> doc s = Unparsable) \<longrightarrow>
        (\<exists>s'. construct opts s = Inr s' \<and> length (ctxs s') = Suc (length (ctxs s))
           \<and> mirror (ctxs s' ! length (ctxs s)) = assign [] (initial_data opts)
           \<and> (distinct (map fst (initial_data opts)) \<longrightarrow>
                mirror (ctxs s' ! length (ctxs s)) = initial_data opts)))
     \<and> (doc s = Parsed (JObj kvs) \<longrightarrow>
        (\<exists>s'. construct opts s = Inr s' \<and> length (ctxs s') = Suc (length (ctxs s))
           \<and> mirror (ctxs s' ! length (ctxs s)) = assign (assign [] (initial_data opts)) kvs
           \<and> (distinct (map fst (initial_data opts)) \<longrightarrow> distinct (map fst kvs) \<longrightarrow>
                (\<forall>k. map_of (mirror (ctxs s' ! length (ctxs s))) k =
                      (case map_of kvs k of Some v \<Rightarrow> Some v | None \<Rightarrow> map_of (initial_data opts) k)))))"
proof (intro impI conjI)
  assume q: "pending s = []" and d: "doc s = Missing \<or> doc s = Unparsable"
  have j: "(case doc s of Parsed j \<Rightarrow> j | f \<Rightarrow> JObj []) = JObj []" using d by auto
  obtain s' where s': "construct opts s = Inr s'"
    "ctxs s' = ctxs s @
       [\<lparr>mirror = assign (assign [] (initial_data opts)) (entries (JObj [])),
         proto = ObjectPrototype,
         disposed = False, isUpdatingFromFile = False,
         initialized = (0 < length (entries (JObj [])) \<or> 0 < length (initial_data opts)),
         cleanup = opt_cleanup opts, lockTimeout = opt_lockTimeout opts, watching = True\<rparr>]"
    using construct_quiet[OF q, of opts] j by auto
  have "mirror (ctxs s' ! length (ctxs s)) = assign [] (initial_data opts)"
    using s'(2) by (simp add: assign_def)
  moreover have "distinct (map fst (initial_data opts)) \<longrightarrow> assign [] (initial_data opts) = initial_data opts"
    using assign_distinct[of "[]" "initial_data opts"] by simp
  ultimately show "\<exists>s'. construct opts s = Inr s' \<and> length (ctxs s') = Suc (length (ctxs s))
           \<and> mirror (ctxs s' ! length (ctxs s)) = assign [] (initial_data opts)
           \<and> (distinct (map fst (initial_data opts)) \<longrightarrow>
                mirror (ctxs s' ! length (ctxs s)) = initial_data opts)"
    using s' by auto
next
  assume q: "pending s = []" and d: "doc s = Parsed (JObj kvs)"
  have j: "(case doc s of Parsed j \<Rightarrow> j | f \<Rightarrow> JObj []) = JObj kvs" using d by simp
  obtain s' where s': "construct opts s = Inr s'"
    "ctxs s' = ctxs s @
       [\<lparr>mirror = assign (assign [] (initial_data opts)) (entries (JObj kvs)),
         proto = ObjectPrototype,
         disposed = False, isUpdatingFromFile = False,
         initialized = (0 < length (entries (JObj kvs)) \<or> 0 < length (initial_data opts)),
         cleanup = opt_cleanup opts, lockTimeout = opt_lockTimeout opts, watching = True\<rparr>]"
    using construct_quiet[OF q, of opts] j by auto
  have "mirror (ctxs s' ! length (ctxs s)) = assign (assign [] (initial_data opts)) kvs"
    using s'(2) by simp
  then show "\<exists>s'. construct opts s = Inr s' \<and> length (ctxs s') = Suc (length (ctxs s))
           \<and> mirror (ctxs s' ! length (ctxs s)) = assign (assign [] (initial_data opts)) kvs
           \<and> (distinct (map fst (initial_data opts)) \<longrightarrow> distinct (map fst kvs) \<longrightarrow>
                (\<forall>k. map_of (mirror (ctxs s' ! length (ctxs s))) k =
                      (case map_of kvs k of Some v \<Rightarrow> Some v | None \<Rightarrow> map_of (initial_data opts) k)))"
    using s' map_of_merged[of "initial_data opts" kvs] by auto
qed

text \<open>
  With the options \<open>{ data: { a: 1 } }\<close>: on a machine without the file the Mirror is
  \<open>{a: 1}\<close>; on a file that holds \<open>{a: 7, b: "x"}\<close> the Mirror has \<open>a = 7\<close> and \<open>b = "x"\<close>.
\<close>

lemma construct_seeds_mirror_example:
  "(\<exists>s'. construct seed_a idle_world = Inr s' \<and> length (ctxs s') = 1
        \<and> mirror (ctxs s' ! 0) = [(''a'', JNum 1)])
   \<and> (\<exists>s'. construct seed_a written_world = Inr s' \<and> length (ctxs s') = 1
        \<and> map_of (mirror (ctxs s' ! 0)) ''a'' = Some (JNum 7)
        \<and> map_of (mirror (ctxs s' ! 0)) ''b'' = Some (JStr ''x''))"
proof -
  have i: "initial_data seed_a = [(''a'', JNum 1)]" by (simp add: initial_data_def seed_a_def)
  have h1: "pending idle_world = []" "doc idle_world = Missing \<or> doc idle_world = Unparsable"
    "length (ctxs idle_world) = 0"
    by (simp_all add: idle_world_def)
  have h2: "pending written_world = []"
    "doc written_world = Parsed (JObj [(''a'', JNum 7), (''b'', JStr ''x'')])"
    "length (ctxs written_world) = 0"
    by (simp_all add: written_world_def idle_world_def)
  have d: "distinct (map fst (initial_data seed_a))"
    "distinct (map fst [(''a'', JNum 7), (''b'', JStr ''x'')])"
    by (simp_all add: i)
  obtain s1 where 1: "construct seed_a idle_world = Inr s1"
    "length (ctxs s1) = Suc (length (ctxs idle_world))"
    "mirror (ctxs s1 ! length (ctxs idle_world)) = initial_data seed_a"
    using construct_seeds_mirror[of idle_world seed_a] h1(1,2) d(1) by blast
  obtain s2 where 2: "construct seed_a written_world = Inr s2"
    "length (ctxs s2) = Suc (length (ctxs written_world))"
    "\<forall>k. map_of (mirror (ctxs s2 ! length (ctxs written_world))) k =
         (case map_of [(''a'', JNum 7), (''b'', JStr ''x'')] k of
            Some v \<Rightarrow> Some v | None \<Rightarrow> map_of (initial_data seed_a) k)"
    using construct_seeds_mirror[of written_world seed_a
        "[(''a'', JNum 7), (''b'', JStr ''x'')]"] h2(1,2) d
    by blast
  have "construct seed_a idle_world = Inr s1 \<and> length (ctxs s1) = 1
        \<and> mirror (ctxs s1 ! 0) = [(''a'', JNum 1)]"
    using 1 h1(3) i by simp
  moreover have "construct seed_a written_world = Inr s2 \<and> length (ctxs s2) = 1
        \<and> map_of (mirror (ctxs s2 ! 0)) ''a'' = Some (JNum 7)
        \<and> map_of (mirror (ctxs s2 ! 0)) ''b'' = Some (JStr ''x'')"
    using 2 h2(3) by simp
  ultimately show ?thesis by blast
qed

text \<open>
  A file that holds the JSON value \<open>null\<close> is read without error, and
  \<open>Object.keys(existingData)\<close> then throws out of the constructor.
\<close>

lemma construct_null_throws:
  "pending s = [] \<Longrightarrow> doc s = Parsed JNull \<Longrightarrow> construct opts s = Inl TypeError"
  by (simp add: construct_def ensureFile_def loadFile_def existsSync_def readJSON_def
        env_step_def logged_def object_keys_def Let_def)

section \<open>The readiness barrier\<close>

lemma polls_env_step: "polls (snd (env_step s)) = polls s"
  by (simp add: polls_def env_step_trace)

lemma polls_wx: "polls (snd (writeFile_wx s)) = polls s"
  using polls_env_step[of s]
  by (auto simp: polls_def writeFile_wx_def logged_def split: prod.splits bool.splits option.splits)

lemma polls_stat: "polls (snd (stat_mtime s)) = polls s"
  using polls_env_step[of s]
  by (auto simp: polls_def stat_mtime_def logged_def split: prod.splits bool.splits option.splits)

lemma polls_unlink: "polls (snd (unlink s)) = polls s"
  using polls_env_step[of s]
  by (auto simp: polls_def unlink_def logged_def split: prod.splits bool.splits option.splits)

lemma polls_sleep: "polls (sleep ms s) = polls s"
  by (simp add: polls_def sleep_def)

lemma polls_acquire: "polls (snd (acquire t s)) = polls s"
proof -
  have "(\<lambda>a b. polls b = polls a) s (snd (acquire_loop t (now s) s))"
  proof (rule acquire_loop_rel)
    show "\<And>s. polls s = polls s" by simp
    show "\<And>a b c. polls b = polls a \<Longrightarrow> polls c = polls b \<Longrightarrow> polls c = polls a" by simp
    show "\<And>s. polls (snd (writeFile_wx s)) = polls s" by (rule polls_wx)
    show "\<And>s. polls (snd (stat_mtime s)) = polls s" by (rule polls_stat)
    show "\<And>s. polls (snd (unlink s)) = polls s" by (rule polls_unlink)
    show "\<And>s. polls (sleep 10 s) = polls s" by (rule polls_sleep)
  qed
  then show ?thesis by (simp add: acquire_def)
qed

lemma polls_ensureFile: "polls (snd (ensureFile s)) = polls s"
  using polls_env_step[of s]
  by (auto simp: polls_def ensureFile_def logged_def split: prod.splits bool.splits)

lemma polls_writeJSON: "polls (snd (writeJSON d s)) = polls s"
  using polls_env_step[of s]
  by (auto simp: polls_def writeJSON_def logged_def split: prod.splits bool.splits)

lemma polls_readJSON: "polls (snd (readJSON s)) = polls s"
  using polls_env_step[of s]
  by (auto simp: polls_def readJSON_def logged_def split: prod.splits bool.splits file_state.splits)

lemma polls_existsSync: "polls (snd (existsSync DocPath s)) = Suc (polls s)"
  by (simp add: polls_def existsSync_trace)

lemma polls_release: "polls (snd (release s)) = polls s"
  using polls_unlink[of s] by (auto simp: release_def split: prod.splits unlink_result.splits)

lemma polls_warn: "polls (warn m s) = polls s"
  by (simp add: polls_def)

lemma polls_performSave: "polls (snd (performSave i s)) = polls s"
proof -
  obtain r s1 where a: "acquire (lock_timeout (ctxs s ! i)) s = (r, s1)"
    by (cases "acquire (lock_timeout (ctxs s ! i)) s")
  have p1: "polls s1 = polls s" using polls_acquire[of "lock_timeout (ctxs s ! i)" s] a by simp
  obtain e s2 where e: "ensureFile s1 = (e, s2)" by (cases "ensureFile s1")
  have p2: "polls s2 = polls s" using polls_ensureFile[of s1] e p1 by simp
  obtain w s3 where w: "writeJSON (mirror (ctxs s2 ! i)) s2 = (w, s3)"
    by (cases "writeJSON (mirror (ctxs s2 ! i)) s2")
  have p3: "polls s3 = polls s" using polls_writeJSON[of "mirror (ctxs s2 ! i)" s2] w p2 by simp
  have r2: "polls (snd (release s2)) = polls s" using polls_release[of s2] p2 by simp
  have r3: "polls (snd (release s3)) = polls s" using polls_release[of s3] p3 by simp
  show ?thesis
    using a e w p1 r2 r3
    by (auto simp: performSave_def polls_warn split: lock_outcome.splits bool.splits prod.splits)
qed

lemma polls_saveFile: "polls (saveFile i s) = polls s"
proof -
  let ?s0 = "s\<lparr>saves := saves s @ [i]\<rparr>"
  have 0: "polls ?s0 = polls s" by (simp add: polls_def)
  have b: "polls (performSyncSave i ?s0) = polls s"
    using polls_writeJSON[of "mirror (ctxs ?s0 ! i)" ?s0] 0
    by (auto simp: performSyncSave_def polls_warn split: prod.splits bool.splits)
  have c: "polls (start_save i ?s0) = polls s" by (simp add: polls_def start_save_def)
  show ?thesis
    using b c by (auto simp: saveFile_def Let_def)
qed

lemma polls_run_effect: "polls (run_effect i s) = polls s"
  by (simp add: run_effect_def polls_saveFile)

lemma polls_fold_run_effect: "polls (fold run_effect js s) = polls s"
  by (induction js arbitrary: s) (simp_all add: polls_run_effect)

lemma polls_trigger: "polls (trigger s) = polls s"
  by (simp add: trigger_def polls_fold_run_effect)

lemma polls_upd_ctx: "polls (upd_ctx i f s) = polls s"
  by (simp add: polls_def upd_ctx_def)

lemma polls_proxy_set: "polls (proxy_set i k v s) = polls s"
  by (simp add: proxy_set_def polls_trigger polls_upd_ctx)

lemma polls_object_assign: "polls (object_assign i src s) = polls s"
  unfolding object_assign_def
  by (induction src arbitrary: s) (auto simp: polls_proxy_set)

text \<open>The loop of ready.\<close>

lemma ready_loop_props:
  assumes "i < length (ctxs s)"
  shows "length (ctxs (ready_loop n i s)) = length (ctxs s) \<and>
         initialized (ctxs (ready_loop n i s) ! i) \<and>
         (mirror (ctxs (ready_loop n i s) ! i) = mirror (ctxs s ! i) \<or>
          (\<exists>j. truthy j \<and> entries j \<noteq> [] \<and>
               mirror (ctxs (ready_loop n i s) ! i) = mirror (assign_all (entries j) (ctxs s ! i)))) \<and>
         polls (ready_loop n i s) \<le> polls s + n"
  using assms
proof (induction n arbitrary: s)
  case 0
  then show ?case by (simp add: upd_ctx_def polls_def)
next
  case (Suc n)
  obtain e s1 where e: "existsSync DocPath s = (e, s1)" by (cases "existsSync DocPath s")
  have c1: "ctxs s1 = ctxs s" using existsSync_same[of s DocPath] e by (simp add: same_process_def)
  have p1: "polls s1 = Suc (polls s)" using polls_existsSync[of s] e by simp
  obtain r s2 where r: "readJSON s1 = (r, s2)" by (cases "readJSON s1")
  have c2: "ctxs s2 = ctxs s" using readJSON_same[of s1] r c1 by (simp add: same_process_def)
  have p2: "polls s2 = Suc (polls s)" using polls_readJSON[of s1] r p1 by simp
  have again: "\<And>s'. ctxs s' = ctxs s \<Longrightarrow> polls s' = Suc (polls s) \<Longrightarrow>
      length (ctxs (ready_loop n i (sleep 50 s'))) = length (ctxs s) \<and>
      initialized (ctxs (ready_loop n i (sleep 50 s')) ! i) \<and>
      (mirror (ctxs (ready_loop n i (sleep 50 s')) ! i) = mirror (ctxs s ! i) \<or>
       (\<exists>j. truthy j \<and> entries j \<noteq> [] \<and>
            mirror (ctxs (ready_loop n i (sleep 50 s')) ! i) = mirror (assign_all (entries j) (ctxs s ! i)))) \<and>
      polls (ready_loop n i (sleep 50 s')) \<le> polls s + Suc n"
  proof -
    fix s' assume c: "ctxs s' = ctxs s" and p: "polls s' = Suc (polls s)"
    have "i < length (ctxs (sleep 50 s'))" using c Suc.prems by (simp add: sleep_def)
    from Suc.IH[OF this] show "length (ctxs (ready_loop n i (sleep 50 s'))) = length (ctxs s) \<and>
      initialized (ctxs (ready_loop n i (sleep 50 s')) ! i) \<and>
      (mirror (ctxs (ready_loop n i (sleep 50 s')) ! i) = mirror (ctxs s ! i) \<or>
       (\<exists>j. truthy j \<and> entries j \<noteq> [] \<and>
            mirror (ctxs (ready_loop n i (sleep 50 s')) ! i) = mirror (assign_all (entries j) (ctxs s ! i)))) \<and>
      polls (ready_loop n i (sleep 50 s')) \<le> polls s + Suc n"
      using c p by (simp add: sleep_def polls_sleep[unfolded sleep_def])
  qed
  show ?case
  proof (cases e)
    case False
    then have "ready_loop (Suc n) i s = ready_loop n i (sleep 50 s1)" using e by simp
    then show ?thesis using again[OF c1 p1] by simp
  next
    case True
    show ?thesis
    proof (cases r)
      case None
      then have "ready_loop (Suc n) i s = ready_loop n i (sleep 50 s2)" using e r True by simp
      then show ?thesis using again[OF c2 p2] by simp
    next
      case (Some data)
      show ?thesis
      proof (cases "truthy data \<and> 0 < length (entries data)")
        case False
        then have "ready_loop (Suc n) i s = ready_loop n i (sleep 50 s2)"
          using e r True Some by auto
        then show ?thesis using again[OF c2 p2] by simp
      next
        case ok: True
        let ?s3 = "object_assign i (entries data) s2"
        have i2: "i < length (ctxs s2)" using c2 Suc.prems by simp
        have c3: "ctxs ?s3 = ctxs (upd_ctx i (assign_all (entries data)) s2)"
          using fold_proxy_set_frame[of i "entries data" s2] by simp
        have eq: "ready_loop (Suc n) i s = upd_ctx i (\<lambda>c. c\<lparr>initialized := True\<rparr>) ?s3"
          using e r True Some ok by simp
        have "mirror (ctxs (upd_ctx i (\<lambda>c. c\<lparr>initialized := True\<rparr>) ?s3) ! i)
                = mirror (assign_all (entries data) (ctxs s ! i))"
          using c3 c2 Suc.prems by (simp add: upd_ctx_def)
        moreover have "length (ctxs (upd_ctx i (\<lambda>c. c\<lparr>initialized := True\<rparr>) ?s3)) = length (ctxs s)"
          using c3 c2 by (simp add: upd_ctx_def)
        moreover have "initialized (ctxs (upd_ctx i (\<lambda>c. c\<lparr>initialized := True\<rparr>) ?s3) ! i)"
          using c3 c2 Suc.prems by (simp add: upd_ctx_def)
        moreover have "polls (upd_ctx i (\<lambda>c. c\<lparr>initialized := True\<rparr>) ?s3) = Suc (polls s)"
          using p2 by (simp add: polls_upd_ctx polls_object_assign)
        ultimately show ?thesis using eq ok by auto
      qed
    qed
  qed
qed

lemma ready_loop_quiet_empty:
  assumes "pending s = []"
    and "doc s = Missing \<or> doc s = Unparsable \<or> (\<exists>j. doc s = Parsed j \<and> \<not> (truthy j \<and> entries j \<noteq> []))"
  shows "ctxs (ready_loop n i s) = ctxs (upd_ctx i (\<lambda>c. c\<lparr>initialized := True\<rparr>) s) \<and>
         now (ready_loop n i s) = now s + 50 * int n \<and>
         polls (ready_loop n i s) = polls s + n \<and>
         doc (ready_loop n i s) = doc s \<and> saves (ready_loop n i s) = saves s \<and>
         warnings (ready_loop n i s) = warnings s"
  using assms
proof (induction n arbitrary: s)
  case 0
  then show ?case by (simp add: upd_ctx_def polls_def)
next
  case (Suc n)
  have "\<exists>xs. ready_loop (Suc n) i s = ready_loop n i (s\<lparr>trace := trace s @ xs, now := now s + 50\<rparr>)
             \<and> length (filter (\<lambda>x. fst x = Exists \<and> fst (snd x) = DocPath) xs) = 1"
  proof (cases "doc s")
    case Missing
    then show ?thesis
      using Suc.prems(1)
      by (intro exI[of _ "[(Exists, DocPath, False)]"])
         (simp add: existsSync_def readJSON_def env_step_def logged_def sleep_def Let_def)
  next
    case Unparsable
    then show ?thesis
      using Suc.prems(1)
      by (intro exI[of _ "[(Exists, DocPath, True), (Read, DocPath, False)]"])
         (simp add: existsSync_def readJSON_def env_step_def logged_def sleep_def Let_def)
  next
    case (Parsed j)
    then have "\<not> (truthy j \<and> 0 < length (entries j))" using Suc.prems(2) by auto
    then show ?thesis
      using Suc.prems(1) Parsed
      by (intro exI[of _ "[(Exists, DocPath, True), (Read, DocPath, True)]"])
         (auto simp: existsSync_def readJSON_def env_step_def logged_def sleep_def Let_def)
  qed
  then obtain xs where r: "ready_loop (Suc n) i s = ready_loop n i (s\<lparr>trace := trace s @ xs, now := now s + 50\<rparr>)"
    and x: "length (filter (\<lambda>x. fst x = Exists \<and> fst (snd x) = DocPath) xs) = 1" by blast
  let ?s' = "s\<lparr>trace := trace s @ xs, now := now s + 50\<rparr>"
  have "pending ?s' = []" using Suc.prems by simp
  moreover have "doc ?s' = Missing \<or> doc ?s' = Unparsable \<or>
      (\<exists>j. doc ?s' = Parsed j \<and> \<not> (truthy j \<and> entries j \<noteq> []))" using Suc.prems by simp
  ultimately have "ctxs (ready_loop n i ?s') = ctxs (upd_ctx i (\<lambda>c. c\<lparr>initialized := True\<rparr>) ?s') \<and>
         now (ready_loop n i ?s') = now ?s' + 50 * int n \<and>
         polls (ready_loop n i ?s') = polls ?s' + n \<and>
         doc (ready_loop n i ?s') = doc ?s' \<and> saves (ready_loop n i ?s') = saves ?s' \<and>
         warnings (ready_loop n i ?s') = warnings ?s'"
    by (rule Suc.IH)
  then show ?case
    using r x by (simp add: upd_ctx_def polls_def)
qed

lemma ready_loop_quiet_full:
  assumes "i < length (ctxs s)" "pending s = []" "doc s = Parsed j" "truthy j" "entries j \<noteq> []"
  shows "mirror (ctxs (ready_loop (Suc n) i s) ! i) = mirror (assign_all (entries j) (ctxs s ! i)) \<and>
         polls (ready_loop (Suc n) i s) = polls s + 1"
proof -
  let ?s2 = "s\<lparr>trace := trace s @ [(Exists, DocPath, True), (Read, DocPath, True)]\<rparr>"
  let ?s3 = "object_assign i (entries j) ?s2"
  have r: "ready_loop (Suc n) i s = upd_ctx i (\<lambda>c. c\<lparr>initialized := True\<rparr>) ?s3"
    using assms by (simp add: existsSync_def readJSON_def env_step_def logged_def Let_def)
  have i2: "i < length (ctxs ?s2)" using assms(1) by simp
  have c3: "ctxs ?s3 = ctxs (upd_ctx i (assign_all (entries j)) ?s2)"
    using fold_proxy_set_frame[of i "entries j" ?s2] by simp
  have "polls ?s2 = polls s + 1" by (simp add: polls_def)
  then have "polls (upd_ctx i (\<lambda>c. c\<lparr>initialized := True\<rparr>) ?s3) = polls s + 1"
    by (simp add: polls_upd_ctx polls_object_assign)
  moreover have "mirror (ctxs (upd_ctx i (\<lambda>c. c\<lparr>initialized := True\<rparr>) ?s3) ! i)
       = mirror (assign_all (entries j) (ctxs s ! i))"
    using c3 assms(1) by (simp add: upd_ctx_def)
  ultimately show ?thesis using r by simp
qed

section \<open>The claims\<close>

text \<open>
  C1. Among the callers of \<open>acquire()\<close> that race on one lock path, interleaved in any
  order, a caller returns success only by creating the marker at a moment when none exists:
  while a marker exists, whatever the callers do, the set of callers that have returned
  success stays the same, and one step adds at most one caller to it, the one that created
  the marker. After \<open>release()\<close>, a caller that stands at the loop condition with its timeout
  not yet elapsed, or that calls \<open>acquire()\<close> afresh with a positive timeout, returns success
  when it runs next. No event is pending: every act of the others is an event of the
  schedule.
\<close>

theorem lock_one_winner_per_marker:
  "(pending s = [] \<longrightarrow> held_throughout evs (cs, s) \<longrightarrow>
      succeeded (fst (run evs (cs, s))) = succeeded cs)
   \<and> (pending s = [] \<longrightarrow>
        succeeded (fst (sched_step e (cs, s))) = succeeded cs \<or>
        (marker s = None \<and> marker (snd (sched_step e (cs, s))) = Some (now s) \<and>
         (\<exists>i. e = Run i \<and> i < length cs \<and> i \<notin> succeeded cs \<and>
              succeeded (fst (sched_step e (cs, s))) = insert i (succeeded cs))))
   \<and> (j < length cs \<longrightarrow> pending s = [] \<longrightarrow> c_pc (cs ! j) = Guard \<longrightarrow>
        now s - c_start (cs ! j) < c_timeout (cs ! j) \<longrightarrow>
        j \<in> succeeded (fst (run [ReleaseCall, Run j, Run j] (cs, s))))
   \<and> (j < length cs \<longrightarrow> pending s = [] \<longrightarrow> c_pc (cs ! j) = Enter \<longrightarrow>
        0 < c_timeout (cs ! j) \<longrightarrow>
        j \<in> succeeded (fst (run [ReleaseCall, Run j, Run j, Run j] (cs, s))))"
proof (intro conjI impI)
  assume "pending s = []" "held_throughout evs (cs, s)"
  then show "succeeded (fst (run evs (cs, s))) = succeeded cs"
    using held_no_success[of "(cs, s)" evs] by simp
next
  assume "pending s = []"
  then show "succeeded (fst (sched_step e (cs, s))) = succeeded cs \<or>
        (marker s = None \<and> marker (snd (sched_step e (cs, s))) = Some (now s) \<and>
         (\<exists>i. e = Run i \<and> i < length cs \<and> i \<notin> succeeded cs \<and>
              succeeded (fst (sched_step e (cs, s))) = insert i (succeeded cs)))"
    by (rule sched_step_success)
next
  assume "j < length cs" "pending s = []" "c_pc (cs ! j) = Guard"
    "now s - c_start (cs ! j) < c_timeout (cs ! j)"
  then show "j \<in> succeeded (fst (run [ReleaseCall, Run j, Run j] (cs, s)))"
    by (rule release_then_guard)
next
  assume "j < length cs" "pending s = []" "c_pc (cs ! j) = Enter" "0 < c_timeout (cs ! j)"
  then show "j \<in> succeeded (fst (run [ReleaseCall, Run j, Run j, Run j] (cs, s)))"
    by (rule release_then_enter)
qed

text \<open>
  The race of two callers: caller 0 has won, caller 1 goes once round the loop while the
  marker exists and does not succeed; after \<open>release()\<close> its next attempt succeeds.
\<close>

lemma race_won_eval:
  "race_won =
     ([\<lparr>c_timeout = 500, c_start = 1000, c_pc = Finished (Returned True)\<rparr>,
       \<lparr>c_timeout = 500, c_start = 1000, c_pc = Create\<rparr>],
      idle_world\<lparr>marker := Some 1000, trace := [(WriteExcl, LockPath, True)]\<rparr>)"
  by (simp add: race_won_def two_callers_def idle_world_def contender_step_def writeFile_wx_def
        env_step_def logged_def)

lemma loser_round_eval:
  "run loser_round race_won =
     ([\<lparr>c_timeout = 500, c_start = 1000, c_pc = Finished (Returned True)\<rparr>,
       \<lparr>c_timeout = 500, c_start = 1000, c_pc = Guard\<rparr>],
      idle_world\<lparr>now := 1010, marker := Some 1000,
        trace := [(WriteExcl, LockPath, True), (WriteExcl, LockPath, False),
                  (Stat, LockPath, True)]\<rparr>)"
  by (simp add: race_won_eval loser_round_def idle_world_def contender_step_def writeFile_wx_def
        stat_mtime_def env_step_def logged_def)

theorem lock_one_winner_per_marker_witness:
  "succeeded (fst race_won) = {0}
   \<and> held_throughout loser_round race_won
   \<and> succeeded (fst (run loser_round race_won)) = {0}
   \<and> 1 \<in> succeeded (fst (run [ReleaseCall, Run 1, Run 1] (run loser_round race_won)))"
proof -
  have won: "succeeded (fst race_won) = {0}"
    by (auto simp: race_won_eval succeeded_def less_Suc_eq)
  have held: "held_throughout loser_round race_won"
    by (simp add: race_won_eval loser_round_def idle_world_def contender_step_def writeFile_wx_def
        stat_mtime_def env_step_def logged_def)
  have quiet: "pending (snd race_won) = []"
    by (simp add: race_won_eval idle_world_def)
  have stay: "succeeded (fst (run loser_round race_won)) = succeeded (fst race_won)"
    using lock_one_winner_per_marker[of "snd race_won" loser_round "fst race_won"] quiet held
    by simp
  have after: "1 \<in> succeeded (fst (run [ReleaseCall, Run 1, Run 1] (run loser_round race_won)))"
    using lock_one_winner_per_marker[of "snd (run loser_round race_won)" "[]"
        "fst (run loser_round race_won)" "Tick 0" 1]
    by (simp add: loser_round_eval idle_world_def)
  from won held stay after show ?thesis by simp
qed

text \<open>
  C2, as the code has it. With a positive timeout, however small, \<open>acquire()\<close> makes its
  exclusive-create call, and when that call meets no fault and no marker it is the only
  call and the result is success. With the timeout 0 (or a negative one) the loop condition
  \<open>Date.now() - start < timeout\<close> is false at once: no call is made and the result is
  failure.
\<close>

theorem acquire_free_marker:
  "(0 < t \<longrightarrow> env_step s = (False, s1) \<longrightarrow> marker s1 = None \<longrightarrow>
      acquire t s = (Returned True, logged WriteExcl LockPath True (s1\<lparr>marker := Some (now s1)\<rparr>)))
   \<and> (t \<le> 0 \<longrightarrow> acquire t s = (Returned False, s))"
  using acquire_free acquire_nonpositive by blast

theorem acquire_free_marker_witness:
  "env_step idle_world = (False, idle_world) \<and> marker idle_world = None \<and>
   acquire 5 idle_world =
     (Returned True, idle_world\<lparr>marker := Some 1000, trace := [(WriteExcl, LockPath, True)]\<rparr>)"
  using acquire_free_marker[of 5 idle_world idle_world]
  by (simp add: idle_world_def env_step_def logged_def)

text \<open>
  C2 as stated fails at the timeout 0: the marker is free, and \<open>acquire()\<close> returns failure
  with no file-system call at all.
\<close>

theorem acquire_zero_timeout_counterexample:
  "marker idle_world = None \<and> acquire 0 idle_world = (Returned False, idle_world)
   \<and> trace (snd (acquire 0 idle_world)) = []"
  by (simp add: acquire_nonpositive idle_world_def)

text \<open>
  C6, as the code has it. A call of \<open>acquire()\<close> with a positive timeout that finds a marker
  older than twice the timeout calls \<open>unlink\<close> and goes back to the loop condition without
  sleeping, whatever \<open>unlink\<close> answered. When the first three calls (create, stat, unlink)
  together take less than the timeout, the condition still holds, the create is tried again
  at once and succeeds; this is so when \<open>unlink\<close> removed the marker and also when the marker
  had gone between \<open>stat\<close> and \<open>unlink\<close>. The clock in the result shows that no sleep was
  taken. When the three calls together take the timeout or longer, the condition is false
  on return: the marker is deleted, no create is tried again and the result is failure.
\<close>

theorem stale_marker_reclaimed:
  "(0 < t \<longrightarrow> writeFile_wx s = (EEXIST, s1) \<longrightarrow> stat_mtime s1 = (Some m, s2) \<longrightarrow>
      t * 2 < now s2 - m \<longrightarrow>
      acquire t s = acquire_loop t (now s) (snd (unlink s2)))
   \<and> (marker s = Some m \<longrightarrow>
        pending s = (d1, Quiet) # (d2, Quiet) # (d3, iv) # (d4, Quiet) # rest \<longrightarrow>
        (iv = Quiet \<or> iv = MarkerSet None) \<longrightarrow>
        t * 2 < now s + int d1 + int d2 - m \<longrightarrow>
        int d1 + int d2 + int d3 < t \<longrightarrow>
        acquire t s =
          (Returned True,
           s\<lparr>now := now s + int d1 + int d2 + int d3 + int d4,
             marker := Some (now s + int d1 + int d2 + int d3 + int d4),
             pending := rest,
             trace := trace s @ [(WriteExcl, LockPath, False), (Stat, LockPath, True),
                                 (Unlink, LockPath, iv = Quiet), (WriteExcl, LockPath, True)]\<rparr>))
   \<and> (marker s = Some m \<longrightarrow>
        pending s = (d1, Quiet) # (d2, Quiet) # (d3, Quiet) # rest \<longrightarrow>
        0 < t \<longrightarrow>
        t * 2 < now s + int d1 + int d2 - m \<longrightarrow>
        t \<le> int d1 + int d2 + int d3 \<longrightarrow>
        acquire t s =
          (Returned False,
           s\<lparr>now := now s + int d1 + int d2 + int d3, marker := None, pending := rest,
             trace := trace s @ [(WriteExcl, LockPath, False), (Stat, LockPath, True),
                                 (Unlink, LockPath, True)]\<rparr>))"
proof (intro conjI impI)
  assume "0 < t" "writeFile_wx s = (EEXIST, s1)" "stat_mtime s1 = (Some m, s2)"
    "t * 2 < now s2 - m"
  then show "acquire t s = acquire_loop t (now s) (snd (unlink s2))"
    by (rule acquire_stale_step)
next
  assume "marker s = Some m"
    "pending s = (d1, Quiet) # (d2, Quiet) # (d3, iv) # (d4, Quiet) # rest"
    "iv = Quiet \<or> iv = MarkerSet None"
    "t * 2 < now s + int d1 + int d2 - m"
    "int d1 + int d2 + int d3 < t"
  then show "acquire t s =
          (Returned True,
           s\<lparr>now := now s + int d1 + int d2 + int d3 + int d4,
             marker := Some (now s + int d1 + int d2 + int d3 + int d4),
             pending := rest,
             trace := trace s @ [(WriteExcl, LockPath, False), (Stat, LockPath, True),
                                 (Unlink, LockPath, iv = Quiet), (WriteExcl, LockPath, True)]\<rparr>)"
    by (rule acquire_stale_success)
next
  assume "marker s = Some m"
    "pending s = (d1, Quiet) # (d2, Quiet) # (d3, Quiet) # rest"
    "0 < t"
    "t * 2 < now s + int d1 + int d2 - m"
    "t \<le> int d1 + int d2 + int d3"
  then show "acquire t s =
          (Returned False,
           s\<lparr>now := now s + int d1 + int d2 + int d3, marker := None, pending := rest,
             trace := trace s @ [(WriteExcl, LockPath, False), (Stat, LockPath, True),
                                 (Unlink, LockPath, True)]\<rparr>)"
    by (rule acquire_stale_timeout)
qed

theorem stale_marker_reclaimed_witness:
  "marker stale_world_4 = Some 700 \<and> (100::int) * 2 < now stale_world_4 + 1 + 1 - 700 \<and>
   acquire 100 stale_world_4 =
     (Returned True,
      idle_world\<lparr>now := 1004, marker := Some 1004,
        trace := [(WriteExcl, LockPath, False), (Stat, LockPath, True),
                  (Unlink, LockPath, True), (WriteExcl, LockPath, True)]\<rparr>)"
  using stale_marker_reclaimed[of 100 stale_world_4 stale_world_4 700 stale_world_4 1 1 1 Quiet 1 "[]"]
  by (simp add: stale_world_4_def idle_world_def)

text \<open>
  C6 as stated fails when the timeout runs out during the calls: with the timeout 1 and a
  \<open>stat\<close> that takes 1ms, the stale marker is found and deleted, the loop condition is false
  on return, no create is tried again and \<open>acquire()\<close> returns failure.
\<close>

theorem stale_marker_timeout_counterexample:
  "marker stale_world = Some 700 \<and> (1::int) * 2 < now stale_world - 700 \<and>
   acquire 1 stale_world =
     (Returned False,
      idle_world\<lparr>now := 1001,
        trace := [(WriteExcl, LockPath, False), (Stat, LockPath, True), (Unlink, LockPath, True)]\<rparr>)"
  apply (simp add: acquire_def stale_world_def idle_world_def)
  apply (subst acquire_loop.simps)
  apply (simp add: writeFile_wx_def env_step_def logged_def stat_mtime_def unlink_def)
  apply (subst acquire_loop.simps)
  apply (simp add: writeFile_wx_def env_step_def logged_def stat_mtime_def unlink_def)
  done

text \<open>
  C4, as the code has it. A reload of a context that is neither disposed nor already in a
  reload ends with the flag cleared, and no \<open>saveFile\<close> of that context runs during it: the
  flag is up before the first trap fires. The \<open>finally\<close> block clears the flag whatever the
  body did, and a body that throws is reported as a warning. When every other context of
  the process is disposed or in a reload, the reload makes no \<open>saveFile\<close> at all and its only
  file-system calls are the existence check and the read of \<open>loadFile\<close>. The \<open>effects\<close> set is
  one per process, so the traps of the reload do run the effect functions of the other
  contexts.
\<close>

theorem reload_never_persists_itself:
  "(i < length (ctxs s) \<longrightarrow> \<not> disposed (ctxs s ! i) \<longrightarrow> \<not> isUpdatingFromFile (ctxs s ! i) \<longrightarrow>
      \<not> isUpdatingFromFile (ctxs (syncFromFile i s) ! i)
      \<and> (\<exists>xs. saves (syncFromFile i s) = saves s @ xs \<and> i \<notin> set xs)
      \<and> ((\<forall>j<length (ctxs s). j \<noteq> i \<longrightarrow> disposed (ctxs s ! j) \<or> isUpdatingFromFile (ctxs s ! j)) \<longrightarrow>
           saves (syncFromFile i s) = saves s
           \<and> (\<exists>xs. trace (syncFromFile i s) = trace s @ xs \<and>
                    (\<forall>x\<in>set xs. fst x = Exists \<or> fst x = Read))))
   \<and> (\<forall>body. i < length (ctxs (snd (body s))) \<longrightarrow>
         \<not> isUpdatingFromFile
             (ctxs (try_catch_finally body (warn SyncFromFileFailed)
                      (upd_ctx i (\<lambda>c. c\<lparr>isUpdatingFromFile := False\<rparr>)) s) ! i)
         \<and> (fst (body s) \<longrightarrow>
              warnings (try_catch_finally body (warn SyncFromFileFailed)
                          (upd_ctx i (\<lambda>c. c\<lparr>isUpdatingFromFile := False\<rparr>)) s)
              = warnings (snd (body s)) @ [SyncFromFileFailed]))"
proof (intro conjI impI allI)
  assume i: "i < length (ctxs s)" and a: "\<not> disposed (ctxs s ! i)" "\<not> isUpdatingFromFile (ctxs s ! i)"
  show "\<not> isUpdatingFromFile (ctxs (syncFromFile i s) ! i)"
    using syncFromFile_frame[OF i a] i a(2) by simp
  show "\<exists>xs. saves (syncFromFile i s) = saves s @ xs \<and> i \<notin> set xs"
    using syncFromFile_frame[OF i a] by simp
next
  assume i: "i < length (ctxs s)" and a: "\<not> disposed (ctxs s ! i)" "\<not> isUpdatingFromFile (ctxs s ! i)"
    and o: "\<forall>j<length (ctxs s). j \<noteq> i \<longrightarrow> disposed (ctxs s ! j) \<or> isUpdatingFromFile (ctxs s ! j)"
  let ?s0 = "upd_ctx i (\<lambda>c. c\<lparr>isUpdatingFromFile := True\<rparr>) s"
  have e: "syncFromFile i s =
     upd_ctx i (\<lambda>c. c\<lparr>isUpdatingFromFile := False\<rparr>)
       (upd_ctx i (\<lambda>c. assign_all (entries (fst (loadFile ?s0))) (c\<lparr>mirror := []\<rparr>))
          (snd (loadFile ?s0)))"
    using syncFromFile_idle[OF i a o] .
  have "saves (snd (loadFile ?s0)) = saves ?s0"
    using loadFile_same[of ?s0] by (simp add: same_process_def)
  then show "saves (syncFromFile i s) = saves s"
    using e by (simp add: upd_ctx_def)
  have "trace (syncFromFile i s) = trace (snd (loadFile ?s0))"
    using e by (simp add: upd_ctx_def)
  moreover have "trace ?s0 = trace s" by (simp add: upd_ctx_def)
  ultimately show "\<exists>xs. trace (syncFromFile i s) = trace s @ xs \<and>
                    (\<forall>x\<in>set xs. fst x = Exists \<or> fst x = Read)"
    using loadFile_trace[of ?s0] by simp
next
  fix body :: "sys \<Rightarrow> bool \<times> sys"
  assume "i < length (ctxs (snd (body s)))"
  then show "\<not> isUpdatingFromFile
             (ctxs (try_catch_finally body (warn SyncFromFileFailed)
                      (upd_ctx i (\<lambda>c. c\<lparr>isUpdatingFromFile := False\<rparr>)) s) ! i)"
    by (auto simp: try_catch_finally_def upd_ctx_def warn_def split: prod.splits)
next
  fix body :: "sys \<Rightarrow> bool \<times> sys"
  assume "fst (body s)"
  then show "warnings (try_catch_finally body (warn SyncFromFileFailed)
                          (upd_ctx i (\<lambda>c. c\<lparr>isUpdatingFromFile := False\<rparr>)) s)
              = warnings (snd (body s)) @ [SyncFromFileFailed]"
    by (auto simp: try_catch_finally_def upd_ctx_def warn_def split: prod.splits)
qed

text \<open>
  One context reloads \<open>{z: 9}\<close>: the flag ends cleared, nothing is saved, the file is only
  read. A body that throws at once leaves the flag cleared and one warning.
\<close>

theorem reload_never_persists_itself_witness:
  "\<not> isUpdatingFromFile (ctxs (syncFromFile 0 solo_changed) ! 0)
   \<and> saves (syncFromFile 0 solo_changed) = saves solo_changed
   \<and> trace (syncFromFile 0 solo_changed) = [(Exists, DocPath, True), (Read, DocPath, True)]
   \<and> mirror (ctxs (syncFromFile 0 solo_changed) ! 0) = [(''z'', JNum 9)]
   \<and> \<not> isUpdatingFromFile
        (ctxs (try_catch_finally (\<lambda>s. (True, s)) (warn SyncFromFileFailed)
                 (upd_ctx 0 (\<lambda>c. c\<lparr>isUpdatingFromFile := False\<rparr>)) solo_changed) ! 0)
   \<and> warnings (try_catch_finally (\<lambda>s. (True, s)) (warn SyncFromFileFailed)
                 (upd_ctx 0 (\<lambda>c. c\<lparr>isUpdatingFromFile := False\<rparr>)) solo_changed)
       = [SyncFromFileFailed]"
proof -
  have h: "0 < length (ctxs solo_changed)" "\<not> disposed (ctxs solo_changed ! 0)"
    "\<not> isUpdatingFromFile (ctxs solo_changed ! 0)"
    "\<forall>j<length (ctxs solo_changed). j \<noteq> 0 \<longrightarrow>
        disposed (ctxs solo_changed ! j) \<or> isUpdatingFromFile (ctxs solo_changed ! j)"
    by (simp_all add: solo_changed_def idle_world_def plain_ctx_def)
  have w: "warnings solo_changed = []" by (simp add: solo_changed_def idle_world_def)
  have b: "0 < length (ctxs (snd ((\<lambda>s. (True, s)) solo_changed)))" "fst ((\<lambda>s. (True, s)) solo_changed)"
    using h(1) by simp_all
  note t = reload_never_persists_itself[of 0 solo_changed]
  have 1: "\<not> isUpdatingFromFile (ctxs (syncFromFile 0 solo_changed) ! 0)"
    and 2: "saves (syncFromFile 0 solo_changed) = saves solo_changed"
    using t h by blast+
  have 3: "\<not> isUpdatingFromFile
        (ctxs (try_catch_finally (\<lambda>s. (True, s)) (warn SyncFromFileFailed)
                 (upd_ctx 0 (\<lambda>c. c\<lparr>isUpdatingFromFile := False\<rparr>)) solo_changed) ! 0)"
    and 4: "warnings (try_catch_finally (\<lambda>s. (True, s)) (warn SyncFromFileFailed)
                 (upd_ctx 0 (\<lambda>c. c\<lparr>isUpdatingFromFile := False\<rparr>)) solo_changed)
       = warnings (snd ((\<lambda>s. (True, s)) solo_changed)) @ [SyncFromFileFailed]"
    using t b by blast+
  have 5: "trace (syncFromFile 0 solo_changed) = [(Exists, DocPath, True), (Read, DocPath, True)]"
    by code_simp
  have 6: "mirror (ctxs (syncFromFile 0 solo_changed) ! 0) = [(''z'', JNum 9)]"
    by code_simp
  from 1 2 3 4 5 6 w show ?thesis by simp
qed

text \<open>
  C4 as stated fails with a second live context of the same process on the same document:
  while context 0 reloads \<open>{z: 9}\<close>, its traps run the effect function of context 1, which
  writes its own Mirror \<open>{a: 1}\<close> over the file, once per trap.
\<close>

theorem reload_echo_counterexample:
  "\<not> disposed (ctxs pair_changed ! 0) \<and> \<not> isUpdatingFromFile (ctxs pair_changed ! 0)
   \<and> doc pair_changed = Parsed (JObj [(''z'', JNum 9)])
   \<and> trace (syncFromFile 0 pair_changed) =
       [(Exists, DocPath, True), (Read, DocPath, True), (Write, DocPath, True), (Write, DocPath, True)]
   \<and> saves (syncFromFile 0 pair_changed) = [1, 1]
   \<and> doc (syncFromFile 0 pair_changed) = Parsed (JObj [(''a'', JNum 1)])"
  by code_simp

text \<open>
  C8, as the code has it. After \<open>dispose()\<close> the context is disposed and no longer
  subscribed. On a disposed context the effect function and the reload do nothing, the
  context stays disposed under any sequence of assignments, deletes and notifications, and
  none of them runs a \<open>saveFile\<close> of that context. When every context of the process is
  disposed, such a sequence changes nothing but the target object of the context it
  reaches. So after a \<open>dispose()\<close> that cleaned up, with every other context of the process
  disposed as well and no persist of the process in flight, the document file stays absent
  under any sequence of signals to any context, steps of persists and passing of time: no
  file-system call is made and no persist is started. The \<open>effects\<close> set is one per process:
  the traps of a disposed context still run the effect functions of the contexts that live.
  And \<open>performSave\<close> does not look at \<open>disposed\<close>: a persist that is in flight when \<open>dispose()\<close>
  runs goes on to write the file.
\<close>

theorem disposal_is_terminal:
  "i < length (ctxs s) \<longrightarrow>
     disposed (ctxs (dispose i s) ! i) \<and> \<not> watching (ctxs (dispose i s) ! i)
     \<and> (disposed (ctxs s ! i) \<longrightarrow>
          run_effect i s = s \<and> syncFromFile i s = s
          \<and> disposed (ctxs (fold (deliver i) sigs s) ! i)
          \<and> (\<exists>xs. saves (fold (deliver i) sigs s) = saves s @ xs \<and> i \<notin> set xs)
          \<and> ((\<forall>j<length (ctxs s). disposed (ctxs s ! j)) \<longrightarrow>
               (\<exists>m p. fold (deliver i) sigs s = set_target i m p s)))
     \<and> (cleanup (ctxs s ! i) \<noteq> Some False \<longrightarrow> pending s = [] \<longrightarrow>
          (\<forall>j<length (ctxs s). j \<noteq> i \<longrightarrow> disposed (ctxs s ! j)) \<longrightarrow> settled s \<longrightarrow>
          doc (dispose i s) = Missing
          \<and> doc (fold occur evs (dispose i s)) = Missing
          \<and> trace (fold occur evs (dispose i s)) = trace (dispose i s)
          \<and> saves (fold occur evs (dispose i s)) = saves (dispose i s)
          \<and> tasks (fold occur evs (dispose i s)) = tasks s)"
proof (intro impI conjI)
  assume i: "i < length (ctxs s)"
  show "disposed (ctxs (dispose i s) ! i)" "\<not> watching (ctxs (dispose i s) ! i)"
    using dispose_flags[OF i] by simp_all
next
  assume i: "i < length (ctxs s)" and d: "disposed (ctxs s ! i)"
  show "run_effect i s = s" using d by (simp add: run_effect_def)
  show "syncFromFile i s = s" using d by (simp add: syncFromFile_def)
  show "disposed (ctxs (fold (deliver i) sigs s) ! i)"
    using deliver_all_disposed[OF i d, of sigs] i d by simp
  show "\<exists>xs. saves (fold (deliver i) sigs s) = saves s @ xs \<and> i \<notin> set xs"
    using deliver_all_disposed[OF i d, of sigs] by simp
next
  assume i: "i < length (ctxs s)" and "\<forall>j<length (ctxs s). disposed (ctxs s ! j)"
  then show "\<exists>m p. fold (deliver i) sigs s = set_target i m p s"
    by (rule deliver_all_idle)
next
  assume i: "i < length (ctxs s)" and c: "cleanup (ctxs s ! i) \<noteq> Some False" and p: "pending s = []"
    and o: "\<forall>j<length (ctxs s). j \<noteq> i \<longrightarrow> disposed (ctxs s ! j)" and r: "settled s"
  show m: "doc (dispose i s) = Missing" using dispose_quiet[OF c p] by simp
  have a: "\<forall>j<length (ctxs (dispose i s)). disposed (ctxs (dispose i s) ! j)"
  proof (intro allI impI)
    fix j assume "j < length (ctxs (dispose i s))"
    then have j: "j < length (ctxs s)" using dispose_flags[OF i] by simp
    show "disposed (ctxs (dispose i s) ! j)"
      using dispose_flags[OF i] o j by (cases "j = i") auto
  qed
  have t: "tasks (dispose i s) = tasks s" by (rule dispose_tasks)
  then have b: "settled (dispose i s)" using r by (simp add: settled_def)
  note e = occur_all_at_rest[OF a b, of evs]
  show "doc (fold occur evs (dispose i s)) = Missing" using e m by simp
  show "trace (fold occur evs (dispose i s)) = trace (dispose i s)" using e by simp
  show "saves (fold occur evs (dispose i s)) = saves (dispose i s)" using e by simp
  show "tasks (fold occur evs (dispose i s)) = tasks s" using e t by simp
qed

text \<open>
  One context with the Mirror \<open>{a: 1}\<close> and no persist in flight is disposed; then
  \<open>value.a = 2\<close>, \<open>delete value.a\<close> and a notification arrive, a persist is asked to step and
  time passes. The file stays absent and nothing is saved.
\<close>

theorem disposal_is_terminal_witness:
  "disposed (ctxs (dispose 0 solo_changed) ! 0)
   \<and> doc (dispose 0 solo_changed) = Missing
   \<and> doc (fold occur [Signal 0 (SetKey ''a'' (JNum 2)), Signal 0 (DeleteKey ''a''),
                     Signal 0 FileNotify, Resume 0, Elapse 50] (dispose 0 solo_changed))
       = Missing
   \<and> saves (fold occur [Signal 0 (SetKey ''a'' (JNum 2)), Signal 0 (DeleteKey ''a''),
                     Signal 0 FileNotify, Resume 0, Elapse 50] (dispose 0 solo_changed))
       = []
   \<and> saves (fold (deliver 0) [SetKey ''a'' (JNum 2), DeleteKey ''a'', FileNotify] (dispose 0 solo_changed))
       = []"
proof -
  let ?evs = "[Signal 0 (SetKey ''a'' (JNum 2)), Signal 0 (DeleteKey ''a''),
               Signal 0 FileNotify, Resume 0, Elapse 50]"
  have h: "0 < length (ctxs solo_changed)" "cleanup (ctxs solo_changed ! 0) \<noteq> Some False"
    "pending solo_changed = []"
    "\<forall>j<length (ctxs solo_changed). j \<noteq> 0 \<longrightarrow> disposed (ctxs solo_changed ! j)"
    "settled solo_changed"
    by (simp_all add: solo_changed_def idle_world_def plain_ctx_def settled_def)
  note t = disposal_is_terminal[of 0 solo_changed "[SetKey ''a'' (JNum 2), DeleteKey ''a'', FileNotify]" ?evs]
  have 1: "disposed (ctxs (dispose 0 solo_changed) ! 0)" using t h(1) by blast
  have 2: "doc (dispose 0 solo_changed) = Missing"
    and 3: "doc (fold occur ?evs (dispose 0 solo_changed)) = Missing"
    and 4: "saves (fold occur ?evs (dispose 0 solo_changed)) = saves (dispose 0 solo_changed)"
    using t h by blast+
  have 5: "saves (dispose 0 solo_changed) = []" by code_simp
  have 6: "saves (fold (deliver 0) [SetKey ''a'' (JNum 2), DeleteKey ''a'', FileNotify]
                  (dispose 0 solo_changed)) = []"
    by code_simp
  from 1 2 3 4 5 6 show ?thesis by simp
qed

text \<open>
  C8 as stated fails with a second live context of the same process on the same document:
  \<open>dispose()\<close> of context 0 deletes the file, and the next assignment to the value of
  context 0 runs the effect function of context 1, whose \<open>saveFile\<close> creates the file again.
\<close>

theorem disposal_recreated_counterexample:
  "doc (dispose 0 pair_synced) = Missing
   \<and> disposed (ctxs (dispose 0 pair_synced) ! 0)
   \<and> doc (deliver 0 (SetKey ''a'' (JNum 2)) (dispose 0 pair_synced)) = Parsed (JObj [(''a'', JNum 1)])
   \<and> saves (deliver 0 (SetKey ''a'' (JNum 2)) (dispose 0 pair_synced)) = [1]"
  by code_simp

text \<open>
  It fails with one context as well, outside test mode: the persist that the constructor
  started is still in flight when \<open>dispose()\<close> deletes the file. The assignment
  \<open>value.a = 2\<close> on the disposed context starts nothing, and the persist then takes the lock,
  creates the file and writes the Mirror as it is by then.
\<close>

lemma disposal_overtaken_by_persist:
  "doc built = Unparsable
   \<and> map t_stage (tasks built) = [CreateIssued]
   \<and> doc (dispose 0 built) = Missing
   \<and> disposed (ctxs (dispose 0 built) ! 0)
   \<and> saves (fold occur [Signal 0 (SetKey ''a'' (JNum 2))] (dispose 0 built)) = saves built
   \<and> doc (fold occur [Signal 0 (SetKey ''a'' (JNum 2)), Resume 0, Resume 0, Resume 0, Resume 0]
             (dispose 0 built)) = Parsed (JObj [(''a'', JNum 2)])"
  by code_simp

text \<open>
  C3 at a malformed file. The context holds \<open>{a: 1}\<close> and the notification finds a file that
  does not parse: \<open>loadFile\<close> catches the error and hands back the empty object, so the
  reload deletes every key, assigns nothing, and no warning is written.
\<close>

theorem reload_malformed_empties_mirror:
  "mirror (ctxs solo_malformed ! 0) = [(''a'', JNum 1)]
   \<and> doc solo_malformed = Unparsable
   \<and> mirror (ctxs (syncFromFile 0 solo_malformed) ! 0) = []
   \<and> warnings (syncFromFile 0 solo_malformed) = []"
  by code_simp

text \<open>
  C5, as the code has it. Outside \<open>NODE_ENV=test\<close>, \<open>saveFile\<close> starts \<open>performSave\<close> and
  returns: the persist is in flight. Stepped alone to its end, with 10ms passing at each
  timer, it leaves the state that \<open>performSave\<close> and the rejection handler compute from the
  state at the call, and of that run the following holds. It first runs \<open>acquire\<close> with the
  context's timeout, and until \<open>acquire\<close> is over only the lock file is touched. When
  \<open>acquire\<close> returns failure, the state is the one \<open>acquire\<close> left plus the warning about the
  lock: no call on the document. When it throws, the warning about the save is written.
  When it returns success, the marker exists and the last call was the successful exclusive
  create; then come \<open>ensureFile\<close>, the write when \<open>ensureFile\<close> succeeded, and in every case
  the \<open>unlink\<close> of \<open>release\<close> as the last call. With no event pending the file ends as the
  serialised Mirror and the marker is gone; when the write fails the file keeps its content,
  the marker is still removed, and the failure is a warning. No failure is an exception:
  each ends in a state with a warning. Whatever else runs between the steps of the persists,
  signals, other persists, time, the calls of each persist keep this order: calls on the
  lock file, the successful create, \<open>ensureFile\<close>, the write, the \<open>unlink\<close>. What a persist
  writes is the Mirror as it is when its \<open>ensureFile\<close> completes.
\<close>

theorem persist_takes_the_lock:
  "\<not> test_mode s \<longrightarrow>
   acquire (lock_timeout (ctxs s ! i)) (s\<lparr>saves := saves s @ [i]\<rparr>) = (r, s1) \<longrightarrow>
     saveFile i s = start_save i (s\<lparr>saves := saves s @ [i]\<rparr>)
     \<and> (\<exists>evs lg. set evs \<subseteq> {Resume (length (tasks s)), Elapse 10} \<and>
           fold occur evs (saveFile i s) =
             (save_alone i (s\<lparr>saves := saves s @ [i]\<rparr>))
               \<lparr>tasks := tasks s @ [\<lparr>t_ctx = i, t_start = now s, t_stage = Settled, t_log = lg\<rparr>]\<rparr>)
     \<and> (orderly s \<longrightarrow> orderly (fold occur sched (saveFile i s)))
     \<and> (n < length (tasks s) \<longrightarrow> t_stage (tasks s ! n) = EnsureIssued \<longrightarrow> pending s = [] \<longrightarrow>
          doc (fold occur [Resume n, Resume n] s) =
            Parsed (JObj (mirror (ctxs s ! t_ctx (tasks s ! n)))))
     \<and> (\<exists>xs. trace s1 = trace s @ xs \<and> (\<forall>x\<in>set xs. fst (snd x) = LockPath))
     \<and> (r = Returned False \<longrightarrow> save_alone i (s\<lparr>saves := saves s @ [i]\<rparr>) = warn LockNotAcquired s1)
     \<and> (r = Threw \<longrightarrow> save_alone i (s\<lparr>saves := saves s @ [i]\<rparr>) = warn SaveFailed s1)
     \<and> (r = Returned True \<longrightarrow>
          marker s1 = Some (now s1)
          \<and> (\<exists>xs. trace s1 = xs @ [(WriteExcl, LockPath, True)])
          \<and> (\<exists>e w u. trace (save_alone i (s\<lparr>saves := saves s @ [i]\<rparr>)) =
                 trace s1 @ (Ensure, DocPath, e) # (if e then [(Write, DocPath, w)] else [])
                          @ [(Unlink, LockPath, u)])
          \<and> (pending s1 = [] \<longrightarrow>
               save_alone i (s\<lparr>saves := saves s @ [i]\<rparr>) =
                 s1\<lparr>doc := Parsed (JObj (mirror (ctxs s ! i))), marker := None,
                    trace := trace s1 @ [(Ensure, DocPath, True), (Write, DocPath, True),
                                         (Unlink, LockPath, True)]\<rparr>)
          \<and> (pending s1 = (d1, Quiet) # (d2, Fault) # (d3, Quiet) # rest \<longrightarrow>
               save_alone i (s\<lparr>saves := saves s @ [i]\<rparr>) =
                 warn SaveFailed
                   (s1\<lparr>now := now s1 + int d1 + int d2 + int d3, pending := rest,
                       doc := (if doc s1 = Missing then Unparsable else doc s1), marker := None,
                       trace := trace s1 @ [(Ensure, DocPath, True), (Write, DocPath, False),
                                            (Unlink, LockPath, True)]\<rparr>)))"
proof (intro impI)
  let ?s0 = "s\<lparr>saves := saves s @ [i]\<rparr>"
  assume p: "\<not> test_mode s"
    and a: "acquire (lock_timeout (ctxs s ! i)) ?s0 = (r, s1)"
  have a0: "acquire (lock_timeout (ctxs ?s0 ! i)) ?s0 = (r, s1)" using a by simp
  have 0: "saveFile i s = start_save i ?s0" using p by (rule saveFile_production)
  have b: "\<exists>evs lg. set evs \<subseteq> {Resume (length (tasks s)), Elapse 10} \<and>
           fold occur evs (saveFile i s) =
             (save_alone i ?s0)
               \<lparr>tasks := tasks s @ [\<lparr>t_ctx = i, t_start = now s, t_stage = Settled, t_log = lg\<rparr>]\<rparr>"
    unfolding 0 using persist_alone[of ?s0 i] by simp
  have c: "orderly s \<longrightarrow> orderly (fold occur sched (saveFile i s))"
  proof
    assume o: "orderly s"
    obtain xs where x: "tasks (saveFile i s) = tasks s @ xs"
      "\<forall>t\<in>set xs. t_log t = [] \<and> (t_stage t = CreateIssued \<or> t_stage t = Refused)"
      using spawns_saveFile[of s i] unfolding spawns_def by blast
    have "\<forall>t\<in>set xs. log_fits (t_stage t) (t_log t)" using x(2) by (auto simp: lock_phase_def)
    then have "orderly (saveFile i s)" using o x(1) by (auto simp: orderly_def)
    then show "orderly (fold occur sched (saveFile i s))" by (rule occur_all_orderly)
  qed
  have d: "n < length (tasks s) \<longrightarrow> t_stage (tasks s ! n) = EnsureIssued \<longrightarrow> pending s = [] \<longrightarrow>
          doc (fold occur [Resume n, Resume n] s) =
            Parsed (JObj (mirror (ctxs s ! t_ctx (tasks s ! n))))"
    using persist_write_quiet by blast
  have 1: "\<exists>xs. trace s1 = trace s @ xs \<and> (\<forall>x\<in>set xs. fst (snd x) = LockPath)"
    using acquire_lock_calls[of ?s0 "lock_timeout (ctxs s ! i)"] a
    by (simp add: lock_calls_def)
  have 2: "(r = Returned False \<longrightarrow> save_alone i ?s0 = warn LockNotAcquired s1) \<and>
           (r = Threw \<longrightarrow> save_alone i ?s0 = warn SaveFailed s1)"
    using save_alone_not_acquired[OF a0] .
  have 3: "r = Returned True \<longrightarrow>
          marker s1 = Some (now s1)
          \<and> (\<exists>xs. trace s1 = xs @ [(WriteExcl, LockPath, True)])
          \<and> (\<exists>e w u. trace (save_alone i ?s0) =
                 trace s1 @ (Ensure, DocPath, e) # (if e then [(Write, DocPath, w)] else [])
                          @ [(Unlink, LockPath, u)])
          \<and> (pending s1 = [] \<longrightarrow>
               save_alone i ?s0 =
                 s1\<lparr>doc := Parsed (JObj (mirror (ctxs s ! i))), marker := None,
                    trace := trace s1 @ [(Ensure, DocPath, True), (Write, DocPath, True),
                                         (Unlink, LockPath, True)]\<rparr>)
          \<and> (pending s1 = (d1, Quiet) # (d2, Fault) # (d3, Quiet) # rest \<longrightarrow>
               save_alone i ?s0 =
                 warn SaveFailed
                   (s1\<lparr>now := now s1 + int d1 + int d2 + int d3, pending := rest,
                       doc := (if doc s1 = Missing then Unparsable else doc s1), marker := None,
                       trace := trace s1 @ [(Ensure, DocPath, True), (Write, DocPath, False),
                                            (Unlink, LockPath, True)]\<rparr>))"
  proof
    assume r: "r = Returned True"
    note a' = a0[unfolded r]
    have h: "marker s1 = Some (now s1)" "\<exists>xs. trace s1 = xs @ [(WriteExcl, LockPath, True)]"
      using acquire_held[OF a[unfolded r]] by simp_all
    have q: "pending s1 = [] \<longrightarrow>
               save_alone i ?s0 =
                 s1\<lparr>doc := Parsed (JObj (mirror (ctxs s ! i))), marker := None,
                    trace := trace s1 @ [(Ensure, DocPath, True), (Write, DocPath, True),
                                         (Unlink, LockPath, True)]\<rparr>"
      using save_alone_held_quiet[OF a'] by simp
    have f: "pending s1 = (d1, Quiet) # (d2, Fault) # (d3, Quiet) # rest \<longrightarrow>
               save_alone i ?s0 =
                 warn SaveFailed
                   (s1\<lparr>now := now s1 + int d1 + int d2 + int d3, pending := rest,
                       doc := (if doc s1 = Missing then Unparsable else doc s1), marker := None,
                       trace := trace s1 @ [(Ensure, DocPath, True), (Write, DocPath, False),
                                            (Unlink, LockPath, True)]\<rparr>)"
      using save_alone_held_write_fault[OF a'] by blast
    show "marker s1 = Some (now s1)
          \<and> (\<exists>xs. trace s1 = xs @ [(WriteExcl, LockPath, True)])
          \<and> (\<exists>e w u. trace (save_alone i ?s0) =
                 trace s1 @ (Ensure, DocPath, e) # (if e then [(Write, DocPath, w)] else [])
                          @ [(Unlink, LockPath, u)])
          \<and> (pending s1 = [] \<longrightarrow>
               save_alone i ?s0 =
                 s1\<lparr>doc := Parsed (JObj (mirror (ctxs s ! i))), marker := None,
                    trace := trace s1 @ [(Ensure, DocPath, True), (Write, DocPath, True),
                                         (Unlink, LockPath, True)]\<rparr>)
          \<and> (pending s1 = (d1, Quiet) # (d2, Fault) # (d3, Quiet) # rest \<longrightarrow>
               save_alone i ?s0 =
                 warn SaveFailed
                   (s1\<lparr>now := now s1 + int d1 + int d2 + int d3, pending := rest,
                       doc := (if doc s1 = Missing then Unparsable else doc s1), marker := None,
                       trace := trace s1 @ [(Ensure, DocPath, True), (Write, DocPath, False),
                                            (Unlink, LockPath, True)]\<rparr>))"
      using h save_alone_held[OF a'] q f by blast
  qed
  from 0 b c d 1 2 3 show "saveFile i s = start_save i ?s0
     \<and> (\<exists>evs lg. set evs \<subseteq> {Resume (length (tasks s)), Elapse 10} \<and>
           fold occur evs (saveFile i s) =
             (save_alone i ?s0)
               \<lparr>tasks := tasks s @ [\<lparr>t_ctx = i, t_start = now s, t_stage = Settled, t_log = lg\<rparr>]\<rparr>)
     \<and> (orderly s \<longrightarrow> orderly (fold occur sched (saveFile i s)))
     \<and> (n < length (tasks s) \<longrightarrow> t_stage (tasks s ! n) = EnsureIssued \<longrightarrow> pending s = [] \<longrightarrow>
          doc (fold occur [Resume n, Resume n] s) =
            Parsed (JObj (mirror (ctxs s ! t_ctx (tasks s ! n)))))
     \<and> (\<exists>xs. trace s1 = trace s @ xs \<and> (\<forall>x\<in>set xs. fst (snd x) = LockPath))
     \<and> (r = Returned False \<longrightarrow> save_alone i ?s0 = warn LockNotAcquired s1)
     \<and> (r = Threw \<longrightarrow> save_alone i ?s0 = warn SaveFailed s1)
     \<and> (r = Returned True \<longrightarrow>
          marker s1 = Some (now s1)
          \<and> (\<exists>xs. trace s1 = xs @ [(WriteExcl, LockPath, True)])
          \<and> (\<exists>e w u. trace (save_alone i ?s0) =
                 trace s1 @ (Ensure, DocPath, e) # (if e then [(Write, DocPath, w)] else [])
                          @ [(Unlink, LockPath, u)])
          \<and> (pending s1 = [] \<longrightarrow>
               save_alone i ?s0 =
                 s1\<lparr>doc := Parsed (JObj (mirror (ctxs s ! i))), marker := None,
                    trace := trace s1 @ [(Ensure, DocPath, True), (Write, DocPath, True),
                                         (Unlink, LockPath, True)]\<rparr>)
          \<and> (pending s1 = (d1, Quiet) # (d2, Fault) # (d3, Quiet) # rest \<longrightarrow>
               save_alone i ?s0 =
                 warn SaveFailed
                   (s1\<lparr>now := now s1 + int d1 + int d2 + int d3, pending := rest,
                       doc := (if doc s1 = Missing then Unparsable else doc s1), marker := None,
                       trace := trace s1 @ [(Ensure, DocPath, True), (Write, DocPath, False),
                                            (Unlink, LockPath, True)]\<rparr>)))"
    by blast
qed

text \<open>
  A context outside test mode saves \<open>{a: 1}\<close> over \<open>{z: 9}\<close> with the lock free: \<open>saveFile\<close>
  returns with the file untouched and the persist in flight, and its four steps are create,
  ensure, write, unlink. With the lock held by another process for the whole timeout the
  save is given up with the warning and the file keeps \<open>{z: 9}\<close>.
\<close>

theorem persist_takes_the_lock_witness:
  "\<not> test_mode solo_changed
   \<and> fst (acquire (lock_timeout (ctxs solo_changed ! 0)) (solo_changed\<lparr>saves := saves solo_changed @ [0]\<rparr>))
       = Returned True
   \<and> doc (saveFile 0 solo_changed) = Parsed (JObj [(''z'', JNum 9)])
   \<and> trace (saveFile 0 solo_changed) = []
   \<and> save_alone 0 (solo_changed\<lparr>saves := saves solo_changed @ [0]\<rparr>) =
       solo_changed\<lparr>saves := [0], doc := Parsed (JObj [(''a'', JNum 1)]),
         trace := [(WriteExcl, LockPath, True), (Ensure, DocPath, True), (Write, DocPath, True),
                   (Unlink, LockPath, True)]\<rparr>
   \<and> fold occur [Resume 0, Resume 0, Resume 0, Resume 0] (saveFile 0 solo_changed) =
       solo_changed\<lparr>saves := [0], doc := Parsed (JObj [(''a'', JNum 1)]),
         trace := [(WriteExcl, LockPath, True), (Ensure, DocPath, True), (Write, DocPath, True),
                   (Unlink, LockPath, True)],
         tasks := [\<lparr>t_ctx = 0, t_start = 1000, t_stage = Settled,
                    t_log = [(WriteExcl, LockPath, True), (Ensure, DocPath, True),
                             (Write, DocPath, True), (Unlink, LockPath, True)]\<rparr>]\<rparr>
   \<and> orderly (fold occur [Resume 0, Signal 0 (SetKey ''b'' (JNum 2)), Resume 1, Resume 0, Resume 1]
                (saveFile 0 solo_changed))
   \<and> fst (acquire (lock_timeout (ctxs solo_locked ! 0)) (solo_locked\<lparr>saves := saves solo_locked @ [0]\<rparr>))
       = Returned False
   \<and> warnings (save_alone 0 (solo_locked\<lparr>saves := saves solo_locked @ [0]\<rparr>)) = [LockNotAcquired]
   \<and> doc (save_alone 0 (solo_locked\<lparr>saves := saves solo_locked @ [0]\<rparr>)) = Parsed (JObj [(''z'', JNum 9)])"
proof -
  let ?c = "solo_changed\<lparr>saves := saves solo_changed @ [0]\<rparr>"
  let ?l = "solo_locked\<lparr>saves := saves solo_locked @ [0]\<rparr>"
  let ?a = "acquire (lock_timeout (ctxs solo_changed ! 0)) ?c"
  let ?b = "acquire (lock_timeout (ctxs solo_locked ! 0)) ?l"
  have m: "\<not> test_mode solo_changed" "\<not> test_mode solo_locked"
    by (simp_all add: solo_changed_def solo_locked_def idle_world_def)
  have ra: "fst ?a = Returned True" by code_simp
  have sa: "snd ?a = solo_changed\<lparr>saves := [0], marker := Some 1000, trace := [(WriteExcl, LockPath, True)]\<rparr>"
    by code_simp
  have rb: "fst ?b = Returned False" by code_simp
  have wb: "warnings (snd ?b) = []" "doc (snd ?b) = Parsed (JObj [(''z'', JNum 9)])" by code_simp+
  have ea: "?a = (fst ?a, snd ?a)" and eb: "?b = (fst ?b, snd ?b)" by simp_all
  have qa: "pending (snd ?a) = []" by code_simp
  have os: "orderly solo_changed" by (simp add: orderly_def solo_changed_def idle_world_def)
  note t = persist_takes_the_lock[of solo_changed 0 "fst ?a" "snd ?a"
      "[Resume 0, Signal 0 (SetKey ''b'' (JNum 2)), Resume 1, Resume 0, Resume 1]"]
  have "save_alone 0 ?c =
          (snd ?a)\<lparr>doc := Parsed (JObj (mirror (ctxs solo_changed ! 0))), marker := None,
             trace := trace (snd ?a) @ [(Ensure, DocPath, True), (Write, DocPath, True),
                                         (Unlink, LockPath, True)]\<rparr>"
    using t m(1) ea ra qa by blast
  then have 1: "save_alone 0 ?c =
       solo_changed\<lparr>saves := [0], doc := Parsed (JObj [(''a'', JNum 1)]),
         trace := [(WriteExcl, LockPath, True), (Ensure, DocPath, True), (Write, DocPath, True),
                   (Unlink, LockPath, True)]\<rparr>"
    unfolding sa by (simp add: solo_changed_def idle_world_def plain_ctx_def)
  have 2: "orderly (fold occur [Resume 0, Signal 0 (SetKey ''b'' (JNum 2)), Resume 1, Resume 0, Resume 1]
                (saveFile 0 solo_changed))"
    using t m(1) ea os by blast
  have "save_alone 0 ?l = warn LockNotAcquired (snd ?b)"
    using persist_takes_the_lock[of solo_locked 0 "fst ?b" "snd ?b"] m(2) eb rb by blast
  then have 3: "warnings (save_alone 0 ?l) = [LockNotAcquired]"
    "doc (save_alone 0 ?l) = Parsed (JObj [(''z'', JNum 9)])"
    using wb by (simp_all add: warn_def)
  have 4: "doc (saveFile 0 solo_changed) = Parsed (JObj [(''z'', JNum 9)])"
    "trace (saveFile 0 solo_changed) = []"
    by code_simp+
  have 5: "fold occur [Resume 0, Resume 0, Resume 0, Resume 0] (saveFile 0 solo_changed) =
       solo_changed\<lparr>saves := [0], doc := Parsed (JObj [(''a'', JNum 1)]),
         trace := [(WriteExcl, LockPath, True), (Ensure, DocPath, True), (Write, DocPath, True),
                   (Unlink, LockPath, True)],
         tasks := [\<lparr>t_ctx = 0, t_start = 1000, t_stage = Settled,
                    t_log = [(WriteExcl, LockPath, True), (Ensure, DocPath, True),
                             (Write, DocPath, True), (Unlink, LockPath, True)]\<rparr>]\<rparr>"
    by code_simp
  from m ra rb 1 2 3 4 5 show ?thesis by simp
qed

text \<open>
  C5 as stated fails under \<open>NODE_ENV=test\<close>: \<open>saveFile\<close> takes the branch of
  \<open>performSyncSave\<close>, which writes the file with no call on the lock, here while another
  process holds the marker.
\<close>

theorem persist_without_lock_counterexample:
  "test_mode pair_locked \<and> marker pair_locked = Some 990
   \<and> doc pair_locked = Parsed (JObj [(''z'', JNum 9)])
   \<and> trace (saveFile 0 pair_locked) = [(Write, DocPath, True)]
   \<and> doc (saveFile 0 pair_locked) = Parsed (JObj [(''a'', JNum 1)])
   \<and> marker (saveFile 0 pair_locked) = Some 990"
  by code_simp




text \<open>
  C7 at a file that holds \<open>null\<close>. The file exists and parses, so \<open>loadFile\<close> hands back
  \<open>null\<close> with no error to catch, and \<open>Object.keys(existingData)\<close> throws a \<open>TypeError\<close> out of
  the constructor: no context is built. \<open>ready()\<close> tests \<open>data &&\<close> before it asks for the keys
  of what it read from the same file; the constructor does not.
\<close>

theorem construct_null_file_throws:
  "doc null_world = Parsed JNull \<and> pending null_world = []
   \<and> fst (ensureFile null_world) = True
   \<and> fst (loadFile (snd (ensureFile null_world))) = JNull
   \<and> object_keys JNull = None
   \<and> \<not> truthy JNull
   \<and> construct seed_a null_world = Inl TypeError"
  by code_simp

text \<open>
  C9. \<open>ready()\<close> has no exceptional result. On an initialized context it changes nothing.
  Otherwise the context is initialized afterwards, the file was checked at most 10 times,
  and the Mirror is either as it was or is what \<open>Object.assign\<close> makes of it with one
  non-empty value read from the file. A second call changes nothing more. With no event
  pending: when the file is absent, unparsable or holds a value without properties, all 10
  rounds run, each followed by a sleep of 50ms, and the Mirror is as it was (empty when it
  was empty); when the file holds a non-empty value, the first round assigns it. When the
  value has no property named \<open>__proto__\<close>, what \<open>Object.assign\<close> makes of the Mirror is the
  Mirror with each property of the value assigned, in order.
\<close>

theorem ready_always_initializes:
  "i < length (ctxs s) \<longrightarrow>
     (initialized (ctxs s ! i) \<longrightarrow> ready i s = s)
     \<and> initialized (ctxs (ready i s) ! i)
     \<and> ready i (ready i s) = ready i s
     \<and> (mirror (ctxs (ready i s) ! i) = mirror (ctxs s ! i) \<or>
         (\<exists>j. truthy j \<and> entries j \<noteq> [] \<and>
              mirror (ctxs (ready i s) ! i) = mirror (assign_all (entries j) (ctxs s ! i))))
     \<and> polls (ready i s) \<le> polls s + 10
     \<and> (\<not> initialized (ctxs s ! i) \<longrightarrow> pending s = [] \<longrightarrow>
          ((doc s = Missing \<or> doc s = Unparsable \<or>
            (\<exists>j. doc s = Parsed j \<and> \<not> (truthy j \<and> entries j \<noteq> []))) \<longrightarrow>
             mirror (ctxs (ready i s) ! i) = mirror (ctxs s ! i)
             \<and> now (ready i s) = now s + 500 \<and> polls (ready i s) = polls s + 10
             \<and> doc (ready i s) = doc s \<and> warnings (ready i s) = warnings s)
          \<and> (\<forall>j. doc s = Parsed j \<longrightarrow> truthy j \<longrightarrow> entries j \<noteq> [] \<longrightarrow>
                mirror (ctxs (ready i s) ! i) = mirror (assign_all (entries j) (ctxs s ! i))
                \<and> polls (ready i s) = polls s + 1))
     \<and> (\<forall>j. ''__proto__'' \<notin> fst ` set (entries j) \<longrightarrow>
            mirror (assign_all (entries j) (ctxs s ! i)) = assign (mirror (ctxs s ! i)) (entries j))"
proof (intro impI)
  assume i: "i < length (ctxs s)"
  have 1: "initialized (ctxs s ! i) \<longrightarrow> ready i s = s" by (simp add: ready_def)
  have 2: "initialized (ctxs (ready i s) ! i)"
    using ready_loop_props[OF i, of 10] by (simp add: ready_def)
  have 3: "ready i (ready i s) = ready i s"
    using 2 by (simp add: ready_def)
  have 4: "mirror (ctxs (ready i s) ! i) = mirror (ctxs s ! i) \<or>
         (\<exists>j. truthy j \<and> entries j \<noteq> [] \<and>
              mirror (ctxs (ready i s) ! i) = mirror (assign_all (entries j) (ctxs s ! i)))"
    using ready_loop_props[OF i, of 10] by (cases "initialized (ctxs s ! i)") (simp_all add: ready_def)
  have 5: "polls (ready i s) \<le> polls s + 10"
    using ready_loop_props[OF i, of 10] by (cases "initialized (ctxs s ! i)") (simp_all add: ready_def)
  have 6: "\<not> initialized (ctxs s ! i) \<longrightarrow> pending s = [] \<longrightarrow>
          (doc s = Missing \<or> doc s = Unparsable \<or>
            (\<exists>j. doc s = Parsed j \<and> \<not> (truthy j \<and> entries j \<noteq> []))) \<longrightarrow>
             mirror (ctxs (ready i s) ! i) = mirror (ctxs s ! i)
             \<and> now (ready i s) = now s + 500 \<and> polls (ready i s) = polls s + 10
             \<and> doc (ready i s) = doc s \<and> warnings (ready i s) = warnings s"
  proof (intro impI)
    assume n: "\<not> initialized (ctxs s ! i)" and q: "pending s = []"
      and d: "doc s = Missing \<or> doc s = Unparsable \<or>
            (\<exists>j. doc s = Parsed j \<and> \<not> (truthy j \<and> entries j \<noteq> []))"
    show "mirror (ctxs (ready i s) ! i) = mirror (ctxs s ! i)
             \<and> now (ready i s) = now s + 500 \<and> polls (ready i s) = polls s + 10
             \<and> doc (ready i s) = doc s \<and> warnings (ready i s) = warnings s"
      using ready_loop_quiet_empty[OF q d, of 10 i] n i by (simp add: ready_def upd_ctx_def)
  qed
  have 7: "\<not> initialized (ctxs s ! i) \<longrightarrow> pending s = [] \<longrightarrow>
          (\<forall>j. doc s = Parsed j \<longrightarrow> truthy j \<longrightarrow> entries j \<noteq> [] \<longrightarrow>
                mirror (ctxs (ready i s) ! i) = mirror (assign_all (entries j) (ctxs s ! i))
                \<and> polls (ready i s) = polls s + 1)"
  proof (intro impI allI)
    fix j
    assume n: "\<not> initialized (ctxs s ! i)" and q: "pending s = []"
      and d: "doc s = Parsed j" "truthy j" "entries j \<noteq> []"
    have "ready i s = ready_loop (Suc 9) i s" using n by (simp add: ready_def)
    then show "mirror (ctxs (ready i s) ! i) = mirror (assign_all (entries j) (ctxs s ! i))
                \<and> polls (ready i s) = polls s + 1"
      using ready_loop_quiet_full[OF i q d, of 9] by simp
  qed
  have 8: "\<forall>j. ''__proto__'' \<notin> fst ` set (entries j) \<longrightarrow>
            mirror (assign_all (entries j) (ctxs s ! i)) = assign (mirror (ctxs s ! i)) (entries j)"
    by (simp add: assign_all_plain)
  from 1 2 3 4 5 6 7 8 show "(initialized (ctxs s ! i) \<longrightarrow> ready i s = s)
     \<and> initialized (ctxs (ready i s) ! i)
     \<and> ready i (ready i s) = ready i s
     \<and> (mirror (ctxs (ready i s) ! i) = mirror (ctxs s ! i) \<or>
         (\<exists>j. truthy j \<and> entries j \<noteq> [] \<and>
              mirror (ctxs (ready i s) ! i) = mirror (assign_all (entries j) (ctxs s ! i))))
     \<and> polls (ready i s) \<le> polls s + 10
     \<and> (\<not> initialized (ctxs s ! i) \<longrightarrow> pending s = [] \<longrightarrow>
          ((doc s = Missing \<or> doc s = Unparsable \<or>
            (\<exists>j. doc s = Parsed j \<and> \<not> (truthy j \<and> entries j \<noteq> []))) \<longrightarrow>
             mirror (ctxs (ready i s) ! i) = mirror (ctxs s ! i)
             \<and> now (ready i s) = now s + 500 \<and> polls (ready i s) = polls s + 10
             \<and> doc (ready i s) = doc s \<and> warnings (ready i s) = warnings s)
          \<and> (\<forall>j. doc s = Parsed j \<longrightarrow> truthy j \<longrightarrow> entries j \<noteq> [] \<longrightarrow>
                mirror (ctxs (ready i s) ! i) = mirror (assign_all (entries j) (ctxs s ! i))
                \<and> polls (ready i s) = polls s + 1))
     \<and> (\<forall>j. ''__proto__'' \<notin> fst ` set (entries j) \<longrightarrow>
            mirror (assign_all (entries j) (ctxs s ! i)) = assign (mirror (ctxs s ! i)) (entries j))"
    by blast
qed

text \<open>
  A context that waits on a file holding \<open>{}\<close>: after 10 rounds and 500ms it is initialized
  with its Mirror still empty, and a second \<open>ready()\<close> changes nothing. When another process
  writes \<open>{message: "hello"}\<close> during the first sleep, the second round merges it.
\<close>

theorem ready_always_initializes_witness:
  "\<not> initialized (ctxs waiting_world ! 0)
   \<and> initialized (ctxs (ready 0 waiting_world) ! 0)
   \<and> mirror (ctxs (ready 0 waiting_world) ! 0) = []
   \<and> now (ready 0 waiting_world) = now waiting_world + 500
   \<and> polls (ready 0 waiting_world) = 10
   \<and> ready 0 (ready 0 waiting_world) = ready 0 waiting_world
   \<and> initialized (ctxs (ready 0 populated_world) ! 0)
   \<and> mirror (ctxs (ready 0 populated_world) ! 0) = [(''message'', JStr ''hello'')]
   \<and> polls (ready 0 populated_world) = 2"
proof -
  have h: "0 < length (ctxs waiting_world)" "\<not> initialized (ctxs waiting_world ! 0)"
    "pending waiting_world = []"
    "doc waiting_world = Missing \<or> doc waiting_world = Unparsable \<or>
       (\<exists>j. doc waiting_world = Parsed j \<and> \<not> (truthy j \<and> entries j \<noteq> []))"
    "mirror (ctxs waiting_world ! 0) = []" "polls waiting_world = 0"
    by (simp_all add: waiting_world_def idle_world_def fresh_ctx_def plain_ctx_def polls_def)
  have g: "0 < length (ctxs populated_world)"
    by (simp add: populated_world_def waiting_world_def idle_world_def)
  note t = ready_always_initializes[of 0 waiting_world]
  have 1: "initialized (ctxs (ready 0 waiting_world) ! 0)"
    and 2: "ready 0 (ready 0 waiting_world) = ready 0 waiting_world"
    using t h(1) by blast+
  have 3: "mirror (ctxs (ready 0 waiting_world) ! 0) = mirror (ctxs waiting_world ! 0)
       \<and> now (ready 0 waiting_world) = now waiting_world + 500
       \<and> polls (ready 0 waiting_world) = polls waiting_world + 10"
    using t h(1,2,3,4) by blast
  have 4: "initialized (ctxs (ready 0 populated_world) ! 0)"
    using ready_always_initializes[of 0 populated_world] g by blast
  have 5: "mirror (ctxs (ready 0 populated_world) ! 0) = [(''message'', JStr ''hello'')]"
    "polls (ready 0 populated_world) = 2"
    by code_simp+
  from h(2,5,6) 1 2 3 4 5 show ?thesis by simp
qed

end
